theory Spec2Isabelle
  imports Main
begin

section \<open>JavaScript containers used by \<^verbatim>\<open>src/lib/realtime.js\<close>\<close>

text \<open>
  A JavaScript \<^verbatim>\<open>Map\<close> iterates in insertion order and \<^verbatim>\<open>set\<close> on a key that
  is already present keeps the key's position. It is modelled as an association list
  with pairwise distinct keys: \<open>map_set\<close> overwrites in place or appends,
  \<open>map_delete\<close> drops the key, \<open>map_get\<close> returns \<open>None\<close> for
  \<^verbatim>\<open>undefined\<close>.
\<close>

type_synonym ('k, 'v) js_map = "('k \<times> 'v) list"

fun map_set :: "'k \<Rightarrow> 'v \<Rightarrow> ('k, 'v) js_map \<Rightarrow> ('k, 'v) js_map" where
  "map_set k v [] = [(k, v)]"
| "map_set k v (p # m) = (if fst p = k then (k, v) # m else p # map_set k v m)"

definition map_get :: "'k \<Rightarrow> ('k, 'v) js_map \<Rightarrow> 'v option" where
  "map_get k m = map_of m k"

definition map_has :: "'k \<Rightarrow> ('k, 'v) js_map \<Rightarrow> bool" where
  "map_has k m = (map_of m k \<noteq> None)"

definition map_delete :: "'k \<Rightarrow> ('k, 'v) js_map \<Rightarrow> ('k, 'v) js_map" where
  "map_delete k m = filter (\<lambda>p. fst p \<noteq> k) m"

definition map_keys :: "('k, 'v) js_map \<Rightarrow> 'k list" where
  "map_keys m = map fst m"

text \<open>
  A JavaScript \<^verbatim>\<open>Set\<close> also iterates in insertion order; \<^verbatim>\<open>add\<close> of a member
  that is already present changes nothing.
\<close>

definition set_add :: "'a \<Rightarrow> 'a list \<Rightarrow> 'a list" where
  "set_add x s = (if x \<in> set s then s else s @ [x])"

definition set_delete :: "'a \<Rightarrow> 'a list \<Rightarrow> 'a list" where
  "set_delete x s = removeAll x s"

text \<open>
  \<^verbatim>\<open>Array.prototype.findIndex\<close> returns \<open>-1\<close> when no element satisfies the
  predicate; \<^verbatim>\<open>splice(start, count)\<close> clamps its start index as the language
  defines it.
\<close>

fun findIndex :: "('a \<Rightarrow> bool) \<Rightarrow> 'a list \<Rightarrow> int" where
  "findIndex P [] = - 1"
| "findIndex P (x # xs) =
     (if P x then 0
      else (let i = findIndex P xs in if i = - 1 then - 1 else i + 1))"

definition splice :: "int \<Rightarrow> nat \<Rightarrow> 'a list \<Rightarrow> 'a list" where
  "splice start cnt xs =
     (let len = int (length xs);
          s = (if start < 0 then max (len + start) 0 else min start len)
      in take (nat s) xs @ drop (nat s + cnt) xs)"

section \<open>Records of the tracked collections\<close>

text \<open>
  Field values are primitives compared with \<^verbatim>\<open>===\<close>; an object is a finite map from
  field names to values, and reading a field that is not there gives \<open>None\<close>
  (\<^verbatim>\<open>undefined\<close>). The object spread \<^verbatim>\<open>{ ...a, ...b }\<close> is \<open>a ++ b\<close>. Numbers
  are the integers the store uses for identifiers, so \<^verbatim>\<open>NaN\<close> does not occur.
\<close>

datatype jsval = JNull | JBool bool | JNum int | JStr string

type_synonym obj = "string \<rightharpoonup> jsval"

definition spread :: "obj \<Rightarrow> obj \<Rightarrow> obj" where
  "spread a b = a ++ b"

section \<open>OptimisticUpdates: the pending-update ledger\<close>

text \<open>
  A pending update is the object handed to \<^verbatim>\<open>addPendingUpdate\<close>. The code reads
  the fields \<^verbatim>\<open>type\<close>, \<^verbatim>\<open>operation\<close>, \<^verbatim>\<open>id\<close>, \<^verbatim>\<open>habitId\<close>, \<^verbatim>\<open>logDate\<close>,
  \<^verbatim>\<open>data\<close> and \<^verbatim>\<open>timestamp\<close>; they carry the prefix \<open>u_\<close> here. The payload
  \<^verbatim>\<open>data\<close> is an object (for a delete it is not read).
\<close>

record pending_update =
  u_type :: string
  u_operation :: string
  u_id :: "jsval option"
  u_habitId :: "jsval option"
  u_logDate :: "jsval option"
  u_data :: obj
  u_timestamp :: int

record optimistic_updates =
  pendingUpdates :: "(string, pending_update) js_map"

definition OptimisticUpdates_new :: optimistic_updates where
  "OptimisticUpdates_new = \<lparr>pendingUpdates = []\<rparr>"

text \<open>\<^verbatim>\<open>Date.now()\<close> is passed in as \<open>now\<close>, in milliseconds.\<close>

definition addPendingUpdate ::
  "string \<Rightarrow> pending_update \<Rightarrow> int \<Rightarrow> optimistic_updates \<Rightarrow> optimistic_updates" where
  "addPendingUpdate key update now this =
     this\<lparr>pendingUpdates := map_set key (update\<lparr>u_timestamp := now\<rparr>) (pendingUpdates this)\<rparr>"

definition removePendingUpdate :: "string \<Rightarrow> optimistic_updates \<Rightarrow> optimistic_updates" where
  "removePendingUpdate key this =
     this\<lparr>pendingUpdates := map_delete key (pendingUpdates this)\<rparr>"

definition getPendingUpdate :: "string \<Rightarrow> optimistic_updates \<Rightarrow> pending_update option" where
  "getPendingUpdate key this = map_get key (pendingUpdates this)"

text \<open>
  \<^verbatim>\<open>cleanOldUpdates\<close> walks the entries and deletes, from the same map, each key whose
  entry is older than 30000 ms.
\<close>

definition clean_step ::
  "int \<Rightarrow> string \<times> pending_update \<Rightarrow> optimistic_updates \<Rightarrow> optimistic_updates" where
  "clean_step now entry this =
     (if now - u_timestamp (snd entry) > 30000
      then this\<lparr>pendingUpdates := map_delete (fst entry) (pendingUpdates this)\<rparr>
      else this)"

definition cleanOldUpdates :: "int \<Rightarrow> optimistic_updates \<Rightarrow> optimistic_updates" where
  "cleanOldUpdates now this = fold (clean_step now) (pendingUpdates this) this"

definition ou_cleanup :: "optimistic_updates \<Rightarrow> optimistic_updates" where
  "ou_cleanup this = this\<lparr>pendingUpdates := []\<rparr>"

definition is_old :: "int \<Rightarrow> string \<times> pending_update \<Rightarrow> bool" where
  "is_old now entry = (now - u_timestamp (snd entry) > 30000)"

text \<open>The ledger's invariant: one entry per key.\<close>

definition ledger_inv :: "optimistic_updates \<Rightarrow> bool" where
  "ledger_inv this = distinct (map_keys (pendingUpdates this))"

text \<open>The calls a client can make on the ledger, and a run of them.\<close>

datatype ledger_call =
    Put string pending_update int
  | Remove string
  | Sweep int
  | Clear

fun ledger_do :: "ledger_call \<Rightarrow> optimistic_updates \<Rightarrow> optimistic_updates" where
  "ledger_do (Put k u now) this = addPendingUpdate k u now this"
| "ledger_do (Remove k) this = removePendingUpdate k this"
| "ledger_do (Sweep now) this = cleanOldUpdates now this"
| "ledger_do Clear this = ou_cleanup this"

definition ledger_run :: "ledger_call list \<Rightarrow> optimistic_updates \<Rightarrow> optimistic_updates" where
  "ledger_run calls this = fold ledger_do calls this"

section \<open>Projection of the ledger onto a collection\<close>

text \<open>
  The three \<^verbatim>\<open>applyTo...\<close> methods take an array by reference, copy it with
  \<^verbatim>\<open>[...xs]\<close> and then mutate the copy with \<^verbatim>\<open>push\<close>, \<^verbatim>\<open>splice\<close> and an
  indexed assignment. Arrays therefore live in a store: a reference is a position in the
  store and each array is the list of the objects it holds. Objects themselves are never
  written to by this code (the merge builds a new object), so they are values.
\<close>

type_synonym ref = nat
type_synonym heap = "obj list list"

definition arr_copy :: "ref \<Rightarrow> heap \<Rightarrow> ref \<times> heap" where
  "arr_copy a h = (length h, h @ [h ! a])"

definition arr_push :: "ref \<Rightarrow> obj \<Rightarrow> heap \<Rightarrow> heap" where
  "arr_push r x h = h[r := (h ! r) @ [x]]"

definition arr_findIndex :: "(obj \<Rightarrow> bool) \<Rightarrow> ref \<Rightarrow> heap \<Rightarrow> int" where
  "arr_findIndex P r h = findIndex P (h ! r)"

definition arr_splice :: "ref \<Rightarrow> int \<Rightarrow> nat \<Rightarrow> heap \<Rightarrow> heap" where
  "arr_splice r start cnt h = h[r := splice start cnt (h ! r)]"

text \<open>
  \<^verbatim>\<open>result[index]\<close> reads \<^verbatim>\<open>undefined\<close> outside the array, and spreading
  \<^verbatim>\<open>undefined\<close> contributes no field. The assignment \<^verbatim>\<open>result[index] = x\<close> is
  only made with an index that \<^verbatim>\<open>findIndex\<close> has just returned for the same array, so
  it always replaces an existing element.
\<close>

definition arr_at :: "ref \<Rightarrow> int \<Rightarrow> heap \<Rightarrow> obj option" where
  "arr_at r i h = (if 0 \<le> i \<and> i < int (length (h ! r)) then Some ((h ! r) ! nat i) else None)"

definition spread_opt :: "obj option \<Rightarrow> obj \<Rightarrow> obj" where
  "spread_opt a b = spread (case a of None \<Rightarrow> Map.empty | Some x \<Rightarrow> x) b"

definition arr_assign :: "ref \<Rightarrow> int \<Rightarrow> obj \<Rightarrow> heap \<Rightarrow> heap" where
  "arr_assign r i x h = h[r := (h ! r)[nat i := x]]"

definition habits_body :: "string \<times> pending_update \<Rightarrow> ref \<Rightarrow> heap \<Rightarrow> heap" where
  "habits_body entry result h =
     (let update = snd entry in
      if u_type update = ''habit'' then
        if u_operation update = ''add'' then arr_push result (u_data update) h
        else if u_operation update = ''delete'' then
          (let index = arr_findIndex (\<lambda>x. x ''id'' = u_id update) result h
           in if index \<noteq> - 1 then arr_splice result index 1 h else h)
        else if u_operation update = ''update'' then
          (let index = arr_findIndex (\<lambda>x. x ''id'' = u_id update) result h
           in if index \<noteq> - 1
              then arr_assign result index
                     (spread_opt (arr_at result index h) (u_data update)) h
              else h)
        else h
      else h)"

definition applyToHabits :: "optimistic_updates \<Rightarrow> ref \<Rightarrow> heap \<Rightarrow> ref \<times> heap" where
  "applyToHabits this habits h =
     (let (result, h1) = arr_copy habits h
      in (result, fold (\<lambda>entry. habits_body entry result) (pendingUpdates this) h1))"

definition habitLogs_body :: "string \<times> pending_update \<Rightarrow> ref \<Rightarrow> heap \<Rightarrow> heap" where
  "habitLogs_body entry result h =
     (let update = snd entry in
      if u_type update = ''habitLog'' then
        if u_operation update = ''add'' then arr_push result (u_data update) h
        else if u_operation update = ''delete'' then
          (let index = arr_findIndex
                 (\<lambda>log. log ''habit_id'' = u_habitId update \<and> log ''log_date'' = u_logDate update)
                 result h
           in if index \<noteq> - 1 then arr_splice result index 1 h else h)
        else h
      else h)"

definition applyToHabitLogs :: "optimistic_updates \<Rightarrow> ref \<Rightarrow> heap \<Rightarrow> ref \<times> heap" where
  "applyToHabitLogs this habitLogs h =
     (let (result, h1) = arr_copy habitLogs h
      in (result, fold (\<lambda>entry. habitLogs_body entry result) (pendingUpdates this) h1))"

definition todos_body :: "string \<times> pending_update \<Rightarrow> ref \<Rightarrow> heap \<Rightarrow> heap" where
  "todos_body entry result h =
     (let update = snd entry in
      if u_type update = ''todo'' then
        if u_operation update = ''add'' then arr_push result (u_data update) h
        else if u_operation update = ''delete'' then
          (let index = arr_findIndex (\<lambda>t. t ''id'' = u_id update) result h
           in if index \<noteq> - 1 then arr_splice result index 1 h else h)
        else if u_operation update = ''update'' then
          (let index = arr_findIndex (\<lambda>t. t ''id'' = u_id update) result h
           in if index \<noteq> - 1
              then arr_assign result index
                     (spread_opt (arr_at result index h) (u_data update)) h
              else h)
        else h
      else h)"

definition applyToTodos :: "optimistic_updates \<Rightarrow> ref \<Rightarrow> heap \<Rightarrow> ref \<times> heap" where
  "applyToTodos this todos h =
     (let (result, h1) = arr_copy todos h
      in (result, fold (\<lambda>entry. todos_body entry result) (pendingUpdates this) h1))"

subsection \<open>The projection as the specification words it\<close>

text \<open>
  \<open>spec_project\<close> follows the specification's sentence about \<^verbatim>\<open>project\<close>, not the
  code: every pending update of the requested entity class is applied in ledger order; an
  add appends the payload, an update replaces the first record with the target id by the
  merge of record and data, a delete removes the first record with the update's identity
  (the id, or habit id and log date for a habit log).
\<close>

datatype entity_class = Habit | HabitLog | Todo

fun class_tag :: "entity_class \<Rightarrow> string" where
  "class_tag Habit = ''habit''"
| "class_tag HabitLog = ''habitLog''"
| "class_tag Todo = ''todo''"

fun remove_first :: "('a \<Rightarrow> bool) \<Rightarrow> 'a list \<Rightarrow> 'a list" where
  "remove_first P [] = []"
| "remove_first P (x # xs) = (if P x then xs else x # remove_first P xs)"

fun replace_first :: "('a \<Rightarrow> bool) \<Rightarrow> ('a \<Rightarrow> 'a) \<Rightarrow> 'a list \<Rightarrow> 'a list" where
  "replace_first P f [] = []"
| "replace_first P f (x # xs) = (if P x then f x # xs else x # replace_first P f xs)"

definition merge_fields :: "obj \<Rightarrow> obj \<Rightarrow> obj" where
  "merge_fields r d = (\<lambda>field. case d field of Some v \<Rightarrow> Some v | None \<Rightarrow> r field)"

fun same_identity :: "entity_class \<Rightarrow> pending_update \<Rightarrow> obj \<Rightarrow> bool" where
  "same_identity HabitLog u r =
     (r ''habit_id'' = u_habitId u \<and> r ''log_date'' = u_logDate u)"
| "same_identity c u r = (r ''id'' = u_id u)"

definition spec_apply :: "entity_class \<Rightarrow> pending_update \<Rightarrow> obj list \<Rightarrow> obj list" where
  "spec_apply c u xs =
     (if u_operation u = ''add'' then xs @ [u_data u]
      else if u_operation u = ''update''
        then replace_first (\<lambda>r. r ''id'' = u_id u) (\<lambda>r. merge_fields r (u_data u)) xs
      else if u_operation u = ''delete'' then remove_first (same_identity c u) xs
      else xs)"

definition spec_project ::
  "entity_class \<Rightarrow> (string, pending_update) js_map \<Rightarrow> obj list \<Rightarrow> obj list" where
  "spec_project c ledger base =
     fold (\<lambda>entry xs. if u_type (snd entry) = class_tag c then spec_apply c (snd entry) xs else xs)
       ledger base"

definition is_log_update :: "string \<times> pending_update \<Rightarrow> bool" where
  "is_log_update entry =
     (u_type (snd entry) = ''habitLog'' \<and> u_operation (snd entry) = ''update'')"

section \<open>RealtimeManager: the subscription registry\<close>

text \<open>
  A callback is a function object; the registry only ever compares callbacks by identity
  (membership in a \<^verbatim>\<open>Set\<close>), so a callback is represented by an identifier. The
  upstream client is outside the repository: what the registry does to it is recorded in
  \<open>transport\<close>, one event per channel subscribed and per channel unsubscribed. A
  channel is known by its name, \<^verbatim>\<open>realtime:\<close> followed by the subscription key.
\<close>

type_synonym callback = nat

datatype transport_event = ChannelSubscribe string | ChannelUnsubscribe string

record realtime_manager =
  subscriptions :: "(string, string) js_map"
  callbacks :: "(string, callback list) js_map"
  transport :: "transport_event list"

definition RealtimeManager_new :: realtime_manager where
  "RealtimeManager_new = \<lparr>subscriptions = [], callbacks = [], transport = []\<rparr>"

text \<open>
  The key is the template string \<^verbatim>\<open>`${table}-${filter || 'all'}`\<close>; a filter that is
  \<^verbatim>\<open>null\<close> or the empty string is falsy.
\<close>

definition subscriptionKey :: "string \<Rightarrow> string option \<Rightarrow> string" where
  "subscriptionKey table flt =
     table @ ''-'' @ (case flt of None \<Rightarrow> ''all'' | Some f \<Rightarrow> if f = [] then ''all'' else f)"

definition channel_name :: "string \<Rightarrow> string" where
  "channel_name key = ''realtime:'' @ key"

text \<open>
  \<^verbatim>\<open>subscribe\<close> returns a closure over the key and the callback; its body is
  \<open>unsubscribe\<close> below, so the function returned by \<open>subscribe table callback flt\<close>
  is \<open>unsubscribe (subscriptionKey table flt) callback\<close>. In \<open>subscribe\<close> the set
  is read back right after it was stored, so the lookup cannot miss.
\<close>

definition subscribe ::
  "string \<Rightarrow> callback \<Rightarrow> string option \<Rightarrow> realtime_manager \<Rightarrow> realtime_manager" where
  "subscribe table callback flt this =
     (let key = subscriptionKey table flt;
          this1 = (if \<not> map_has key (callbacks this)
                   then this\<lparr>callbacks := map_set key [] (callbacks this)\<rparr>
                   else this);
          this2 = (case map_get key (callbacks this1) of
                     Some s \<Rightarrow>
                       this1\<lparr>callbacks := map_set key (set_add callback s) (callbacks this1)\<rparr>
                   | None \<Rightarrow> this1)
      in if \<not> map_has key (subscriptions this2)
         then this2\<lparr>transport := transport this2 @ [ChannelSubscribe (channel_name key)],
                    subscriptions := map_set key (channel_name key) (subscriptions this2)\<rparr>
         else this2)"

text \<open>
  In the closure, \<^verbatim>\<open>this.callbacks.get(key)?.size === 0\<close> is false when the key has no
  entry (\<^verbatim>\<open>undefined === 0\<close>).
\<close>

definition unsubscribe :: "string \<Rightarrow> callback \<Rightarrow> realtime_manager \<Rightarrow> realtime_manager" where
  "unsubscribe key callback this =
     (let this1 = (case map_get key (callbacks this) of
                     Some s \<Rightarrow>
                       this\<lparr>callbacks := map_set key (set_delete callback s) (callbacks this)\<rparr>
                   | None \<Rightarrow> this)
      in if (case map_get key (callbacks this1) of Some s \<Rightarrow> length s = 0 | None \<Rightarrow> False)
         then this1\<lparr>transport := transport this1 @
                       (case map_get key (subscriptions this1) of
                          Some ch \<Rightarrow> [ChannelUnsubscribe ch]
                        | None \<Rightarrow> []),
                    subscriptions := map_delete key (subscriptions this1),
                    callbacks := map_delete key (callbacks this1)\<rparr>
         else this1)"

definition rm_cleanup :: "realtime_manager \<Rightarrow> realtime_manager" where
  "rm_cleanup this =
     this\<lparr>transport := transport this @ map (\<lambda>entry. ChannelUnsubscribe (snd entry)) (subscriptions this),
          subscriptions := [],
          callbacks := []\<rparr>"

definition observers :: "string \<Rightarrow> realtime_manager \<Rightarrow> callback list" where
  "observers key this = (case map_get key (callbacks this) of None \<Rightarrow> [] | Some s \<Rightarrow> s)"

text \<open>The registry's calls, and a run of them.\<close>

datatype registry_call =
    Subscribe string callback "string option"
  | Unsubscribe string callback
  | Cleanup

fun registry_do :: "registry_call \<Rightarrow> realtime_manager \<Rightarrow> realtime_manager" where
  "registry_do (Subscribe table callback flt) this = subscribe table callback flt this"
| "registry_do (Unsubscribe key callback) this = unsubscribe key callback this"
| "registry_do Cleanup this = rm_cleanup this"

definition registry_run :: "registry_call list \<Rightarrow> realtime_manager \<Rightarrow> realtime_manager" where
  "registry_run calls this = fold registry_do calls this"

text \<open>
  The registry's invariant: both maps have one entry per key, a key has a channel exactly
  when it has a set of observers, that set has no duplicates and is not empty, and the
  channel stored for a key is the one named after it.
\<close>

definition registry_inv :: "realtime_manager \<Rightarrow> bool" where
  "registry_inv this =
     (distinct (map_keys (subscriptions this)) \<and>
      distinct (map_keys (callbacks this)) \<and>
      set (map_keys (subscriptions this)) = set (map_keys (callbacks this)) \<and>
      (\<forall>entry \<in> set (callbacks this). snd entry \<noteq> [] \<and> distinct (snd entry)) \<and>
      (\<forall>entry \<in> set (subscriptions this). snd entry = channel_name (fst entry)))"

definition opened :: "string \<Rightarrow> realtime_manager \<Rightarrow> nat" where
  "opened key this = length (filter (\<lambda>e. e = ChannelSubscribe (channel_name key)) (transport this))"

definition closed :: "string \<Rightarrow> realtime_manager \<Rightarrow> nat" where
  "closed key this = length (filter (\<lambda>e. e = ChannelUnsubscribe (channel_name key)) (transport this))"

text \<open>
  Every channel subscribed for a key and not yet unsubscribed is the one the key holds.
\<close>

definition registry_balanced :: "realtime_manager \<Rightarrow> bool" where
  "registry_balanced this =
     (\<forall>k. opened k this = closed k this + (if map_has k (subscriptions this) then 1 else 0))"

text \<open>
  A key with observers \<open>cbs\<close> and its channel; a key with no entry in either map.
\<close>

definition watched :: "string \<Rightarrow> callback list \<Rightarrow> realtime_manager \<Rightarrow> bool" where
  "watched key cbs this =
     (map_get key (callbacks this) = Some cbs \<and> cbs \<noteq> [] \<and>
      map_get key (subscriptions this) = Some (channel_name key))"

definition unwatched :: "string \<Rightarrow> realtime_manager \<Rightarrow> bool" where
  "unwatched key this =
     (map_get key (callbacks this) = None \<and> map_get key (subscriptions this) = None)"


section \<open>Fan-out to callbacks\<close>

text \<open>
  A callback may change the application's state, may call back into the object whose set
  is being walked, and may throw. Its behaviour is a function from the payload and the
  application state to the error thrown, if any, the new state, and the calls it has made
  back into the object, in order. For the registry these calls are detach functions and
  \<^verbatim>\<open>cleanup\<close>, for the connection monitor detach functions; a callback does not call
  \<^verbatim>\<open>subscribe\<close> while a fan-out runs. The world records the events of a fan-out (each
  call of a callback, followed by the calls it made back into the object), what was
  written with \<^verbatim>\<open>console.error\<close>, and the application state.
  A computation acts on the object that owns the set and on the world, and returns the
  error it throws (\<open>Some\<close>) or \<open>None\<close>. \<open>forEach\<close> walks the members a set had when
  the walk began, skips a member that has been deleted from the set before its turn, as
  the language defines for a set, and stops at the first error that escapes its body;
  \<open>try_catch\<close> runs the handler on the error of its body.
\<close>

type_synonym exn = string

datatype ('p, 'd) event = Called callback 'p | Reentered 'd

record ('p, 'd, 's) world =
  events :: "('p, 'd) event list"
  console :: "(string \<times> exn) list"
  app :: 's

type_synonym ('p, 'd, 's) behaviour = "callback \<Rightarrow> 'p \<Rightarrow> 's \<Rightarrow> exn option \<times> 's \<times> 'd list"

definition call ::
  "('d \<Rightarrow> 'r \<Rightarrow> 'r) \<Rightarrow> ('p, 'd, 's) behaviour \<Rightarrow> callback \<Rightarrow> 'p
     \<Rightarrow> 'r \<times> ('p, 'd, 's) world \<Rightarrow> exn option \<times> 'r \<times> ('p, 'd, 's) world" where
  "call undo beh cb payload st =
     (case beh cb payload (app (snd st)) of
        (thrown, s, ds) \<Rightarrow>
          (thrown, fold undo ds (fst st),
           (snd st)\<lparr>events := events (snd st) @ Called cb payload # map Reentered ds,
                    app := s\<rparr>))"

definition console_error ::
  "string \<Rightarrow> exn \<Rightarrow> 'r \<times> ('p, 'd, 's) world \<Rightarrow> exn option \<times> 'r \<times> ('p, 'd, 's) world" where
  "console_error msg error st =
     (None, fst st, (snd st)\<lparr>console := console (snd st) @ [(msg, error)]\<rparr>)"

definition try_catch ::
  "('st \<Rightarrow> exn option \<times> 'st) \<Rightarrow> (exn \<Rightarrow> 'st \<Rightarrow> exn option \<times> 'st) \<Rightarrow> 'st \<Rightarrow> exn option \<times> 'st" where
  "try_catch body handler st =
     (case body st of (Some error, st') \<Rightarrow> handler error st' | (None, st') \<Rightarrow> (None, st'))"

fun forEach ::
  "('st \<Rightarrow> 'a list) \<Rightarrow> ('a \<Rightarrow> 'st \<Rightarrow> exn option \<times> 'st) \<Rightarrow> 'a list \<Rightarrow> 'st \<Rightarrow> exn option \<times> 'st" where
  "forEach members f [] st = (None, st)"
| "forEach members f (x # xs) st =
     (if x \<in> set (members st)
      then (case f x st of
              (Some error, st') \<Rightarrow> (Some error, st')
            | (None, st') \<Rightarrow> forEach members f xs st')
      else forEach members f xs st)"

text \<open>
  The handler that \<open>subscribe\<close> registers with the channel of a key fetches the set
  stored under the key once, with \<^verbatim>\<open>this.callbacks.get(subscriptionKey)\<close>, and walks
  that object. The fan-out therefore keeps the walked set beside the registry. A detach
  function deletes its callback from the set the map holds under its key at that moment,
  and that is the walked set when the key is the handler's key and still has its entry (no
  other set can get there, as no callback subscribes during the fan-out); when this empties
  the set, the key's entries are deleted. \<^verbatim>\<open>cleanup\<close> clears both maps and does not
  touch the set objects: the walked set keeps its members, and a detach function that runs
  later finds no entry under the key and does nothing.
\<close>

datatype reentry = Detach string callback | CleanupAll

fun reenter ::
  "string \<Rightarrow> reentry \<Rightarrow> realtime_manager \<times> callback list \<Rightarrow> realtime_manager \<times> callback list" where
  "reenter key (Detach k c) (this, walked) =
     (unsubscribe k c this,
      if k = key \<and> map_has key (callbacks this) then set_delete c walked else walked)"
| "reenter key CleanupAll (this, walked) = (rm_cleanup this, walked)"

definition on_payload ::
  "('p, reentry, 's) behaviour \<Rightarrow> string \<Rightarrow> 'p
     \<Rightarrow> realtime_manager \<times> ('p, reentry, 's) world
     \<Rightarrow> exn option \<times> realtime_manager \<times> ('p, reentry, 's) world" where
  "on_payload beh key payload st =
     (case map_get key (callbacks (fst st)) of
        None \<Rightarrow> (None, st)
      | Some s \<Rightarrow>
          (case forEach (\<lambda>st'. snd (fst st'))
                  (\<lambda>cb. try_catch (call (reenter key) beh cb payload)
                           (console_error ''Realtime callback error:''))
                  s ((fst st, s), snd st) of
             (thrown, r, w) \<Rightarrow> (thrown, fst r, w)))"


text \<open>The key's observers in the registry are members of the walked set, at any moment.\<close>

definition covered :: "string \<Rightarrow> realtime_manager \<times> callback list \<Rightarrow> bool" where
  "covered key r = (set (observers key (fst r)) \<subseteq> set (snd r))"

text \<open>
  The reference against which a fan-out is checked: the walk written without errors. It
  gives the events, the errors thrown by the callbacks called, the object and the
  application state at the end.
\<close>

fun walk ::
  "('r \<Rightarrow> callback list) \<Rightarrow> ('d \<Rightarrow> 'r \<Rightarrow> 'r) \<Rightarrow> ('p, 'd, 's) behaviour \<Rightarrow> 'p \<Rightarrow> callback list
     \<Rightarrow> 'r \<Rightarrow> 's \<Rightarrow> ('p, 'd) event list \<times> exn list \<times> 'r \<times> 's" where
  "walk members undo beh payload [] r s = ([], [], r, s)"
| "walk members undo beh payload (cb # cbs) r s =
     (if cb \<in> set (members r)
      then (case beh cb payload s of
              (thrown, s', ds) \<Rightarrow>
                (case walk members undo beh payload cbs (fold undo ds r) s' of
                   (t, es, r', s'') \<Rightarrow>
                     (Called cb payload # map Reentered ds @ t,
                      (case thrown of None \<Rightarrow> [] | Some error \<Rightarrow> [error]) @ es, r', s'')))
      else walk members undo beh payload cbs r s)"

fun callers :: "('p, 'd) event list \<Rightarrow> callback list" where
  "callers [] = []"
| "callers (Called cb payload # t) = cb # callers t"
| "callers (Reentered d # t) = callers t"

definition never_reenters :: "('p, 'd, 's) behaviour \<Rightarrow> bool" where
  "never_reenters beh = (\<forall>cb payload s. snd (snd (beh cb payload s)) = [])"

text \<open>
  What the calls back into either object have in common: they only remove members of the
  walked set. The events a fan-out has added to the world.
\<close>

definition shrinking :: "('r \<Rightarrow> callback list) \<Rightarrow> ('d \<Rightarrow> 'r \<Rightarrow> 'r) \<Rightarrow> bool" where
  "shrinking members undo = (\<forall>d r. set (members (undo d r)) \<subseteq> set (members r))"

definition new_events ::
  "('p, 'd, 's) world \<Rightarrow> exn option \<times> 'r \<times> ('p, 'd, 's) world \<Rightarrow> ('p, 'd) event list" where
  "new_events w result = drop (length (events w)) (events (snd (snd result)))"

section \<open>ConnectionMonitor\<close>

record connection_monitor =
  isOnline :: bool
  cm_callbacks :: "callback list"

definition cm_subscribe :: "callback \<Rightarrow> connection_monitor \<Rightarrow> connection_monitor" where
  "cm_subscribe callback this = this\<lparr>cm_callbacks := set_add callback (cm_callbacks this)\<rparr>"

text \<open>The body of the function that \<^verbatim>\<open>subscribe\<close> of the monitor returns.\<close>

definition cm_unsubscribe :: "callback \<Rightarrow> connection_monitor \<Rightarrow> connection_monitor" where
  "cm_unsubscribe callback this = this\<lparr>cm_callbacks := set_delete callback (cm_callbacks this)\<rparr>"

definition setOnlineStatus ::
  "(bool, callback, 's) behaviour \<Rightarrow> bool
     \<Rightarrow> connection_monitor \<times> (bool, callback, 's) world
     \<Rightarrow> exn option \<times> connection_monitor \<times> (bool, callback, 's) world" where
  "setOnlineStatus beh status st =
     forEach (\<lambda>st'. cm_callbacks (fst st'))
       (\<lambda>callback. try_catch (call cm_unsubscribe beh callback status)
                      (console_error ''Connection status callback error:''))
       (cm_callbacks (fst st))
       ((fst st)\<lparr>isOnline := status\<rparr>, snd st)"

definition getStatus :: "connection_monitor \<Rightarrow> bool" where
  "getStatus this = isOnline this"

section \<open>DataCache\<close>

text \<open>
  A cached value is any value of the language, \<^verbatim>\<open>null\<close> included; \<open>cache_get\<close>
  returns \<^verbatim>\<open>null\<close> or the stored value, and the cache it leaves. \<^verbatim>\<open>Date.now()\<close> is
  the argument \<open>now\<close>. An item is an object and hence truthy, so \<^verbatim>\<open>!item\<close> holds
  only when the key has no entry.
\<close>

datatype 'a nullable = Null | Val 'a

record 'a item =
  item_value :: "'a nullable"
  item_timestamp :: int

record 'a data_cache =
  cache :: "(string, 'a item) js_map"
  ttl :: int

definition DataCache_new :: "int \<Rightarrow> 'a data_cache" where
  "DataCache_new t = \<lparr>cache = [], ttl = t\<rparr>"

definition default_ttl :: int where
  "default_ttl = 5 * 60 * 1000"

definition cache_set :: "string \<Rightarrow> 'a nullable \<Rightarrow> int \<Rightarrow> 'a data_cache \<Rightarrow> 'a data_cache" where
  "cache_set key v now this =
     this\<lparr>cache := map_set key \<lparr>item_value = v, item_timestamp = now\<rparr> (cache this)\<rparr>"

definition cache_get :: "string \<Rightarrow> int \<Rightarrow> 'a data_cache \<Rightarrow> 'a nullable \<times> 'a data_cache" where
  "cache_get key now this =
     (case map_get key (cache this) of
        None \<Rightarrow> (Null, this)
      | Some item \<Rightarrow>
          if now - item_timestamp item > ttl this
          then (Null, this\<lparr>cache := map_delete key (cache this)\<rparr>)
          else (item_value item, this))"

definition cache_clear :: "'a data_cache \<Rightarrow> 'a data_cache" where
  "cache_clear this = this\<lparr>cache := []\<rparr>"

section \<open>Concrete inputs\<close>

text \<open>Small collections and ledgers on which the theorems below are evaluated.\<close>

definition ex_habit :: obj where
  "ex_habit = [''id'' \<mapsto> JNum 1, ''name'' \<mapsto> JStr ''Read'']"

definition ex_habit2 :: obj where
  "ex_habit2 = [''id'' \<mapsto> JNum 2, ''name'' \<mapsto> JStr ''Run'']"

definition ex_added :: obj where
  "ex_added = [''id'' \<mapsto> JStr ''temp-1'', ''name'' \<mapsto> JStr ''Swim'']"

definition ex_update :: "string \<Rightarrow> string \<Rightarrow> jsval option \<Rightarrow> obj \<Rightarrow> pending_update" where
  "ex_update ty operation target d =
     \<lparr>u_type = ty, u_operation = operation, u_id = target, u_habitId = None,
      u_logDate = None, u_data = d, u_timestamp = 0\<rparr>"

definition ex_ledger :: "string \<Rightarrow> optimistic_updates" where
  "ex_ledger ty =
     addPendingUpdate ''k3'' (ex_update ty ''delete'' (Some (JNum 2)) Map.empty) 1030
       (addPendingUpdate ''k2''
          (ex_update ty ''update'' (Some (JNum 1)) [''name'' \<mapsto> JStr ''Write'']) 1020
          (addPendingUpdate ''k1'' (ex_update ty ''add'' None ex_added) 1010
             OptimisticUpdates_new))"

definition ex_log :: obj where
  "ex_log = [''id'' \<mapsto> JNum 7, ''habit_id'' \<mapsto> JNum 1,
             ''log_date'' \<mapsto> JStr ''2024-01-05'', ''completed'' \<mapsto> JBool False]"

definition ex_log2 :: obj where
  "ex_log2 = [''id'' \<mapsto> JNum 8, ''habit_id'' \<mapsto> JNum 2,
              ''log_date'' \<mapsto> JStr ''2024-01-05'', ''completed'' \<mapsto> JBool True]"

definition ex_log_delete :: pending_update where
  "ex_log_delete =
     \<lparr>u_type = ''habitLog'', u_operation = ''delete'', u_id = None,
      u_habitId = Some (JNum 1), u_logDate = Some (JStr ''2024-01-05''),
      u_data = Map.empty, u_timestamp = 0\<rparr>"

definition ex_logs_ledger :: optimistic_updates where
  "ex_logs_ledger =
     addPendingUpdate ''l2'' ex_log_delete 1020
       (addPendingUpdate ''l1'' (ex_update ''habitLog'' ''add'' None ex_log2) 1010
          OptimisticUpdates_new)"

definition ex_log_ledger :: optimistic_updates where
  "ex_log_ledger =
     addPendingUpdate ''log-7''
       (ex_update ''habitLog'' ''update'' (Some (JNum 7)) [''completed'' \<mapsto> JBool True]) 1000
       OptimisticUpdates_new"

definition ex_cache :: "string data_cache" where
  "ex_cache = cache_set ''data-u1-2024-01'' (Val ''snapshot'') 1000 (DataCache_new default_ttl)"



definition ex_quiet_beh :: "(string, reentry, nat) behaviour" where
  "ex_quiet_beh cb payload s = (if cb = 2 then (Some ''boom'', s + 1, []) else (None, s + 10, []))"

definition ex_world :: "(string, reentry, nat) world" where
  "ex_world = \<lparr>events = [], console = [], app = 0\<rparr>"

definition ex_status_beh :: "(bool, callback, nat) behaviour" where
  "ex_status_beh cb status s =
     (if cb = 1 then (Some ''offline handler failed'', s, []) else (None, s + 1, []))"

definition ex_status_world :: "(bool, callback, nat) world" where
  "ex_status_world = \<lparr>events = [], console = [], app = 0\<rparr>"

definition ex_monitor :: connection_monitor where
  "ex_monitor = cm_subscribe 2 (cm_subscribe 1 \<lparr>isOnline = True, cm_callbacks = []\<rparr>)"

definition ex_manager :: realtime_manager where
  "ex_manager =
     subscribe ''habits'' 3 None (subscribe ''habits'' 2 None (subscribe ''habits'' 1 None
       RealtimeManager_new))"

definition ex_filter :: "string option" where
  "ex_filter = Some ''user_id=eq.u1''"

definition ex_key :: string where
  "ex_key = ''habits-user_id=eq.u1''"

definition ex_subscribed :: realtime_manager where
  "ex_subscribed = fold (\<lambda>cb. subscribe ''habits'' cb ex_filter) [1, 2, 3] RealtimeManager_new"

definition ex_calls :: "registry_call list" where
  "ex_calls = [Subscribe ''habits'' 1 ex_filter, Subscribe ''habits'' 2 ex_filter,
               Unsubscribe ex_key 1]"

definition ex_twice :: "registry_call list" where
  "ex_twice = [Subscribe ''habits'' 7 None, Subscribe ''habits'' 7 None,
               Unsubscribe ''habits-all'' 7]"

section \<open>Facts about the containers and the ledger\<close>

lemma map_of_map_set: "map_of (map_set k v m) = (map_of m)(k \<mapsto> v)"
  by (induction m) (auto simp: fun_eq_iff)

lemma map_keys_map_set:
  "map_keys (map_set k v m) = (if k \<in> set (map_keys m) then map_keys m else map_keys m @ [k])"
  by (induction m) (auto simp: map_keys_def)

lemma distinct_map_set: "distinct (map_keys m) \<Longrightarrow> distinct (map_keys (map_set k v m))"
  by (simp add: map_keys_map_set)

lemma map_set_twice: "map_set k b (map_set k a m) = map_set k b m"
  by (induction m) auto

lemma map_keys_map_delete: "map_keys (map_delete k m) = removeAll k (map_keys m)"
  by (induction m) (auto simp: map_keys_def map_delete_def)

lemma distinct_map_delete: "distinct (map_keys m) \<Longrightarrow> distinct (map_keys (map_delete k m))"
  by (simp add: map_keys_map_delete distinct_removeAll)

lemma map_of_map_delete: "map_of (map_delete k m) = (map_of m)(k := None)"
  by (induction m) (auto simp: map_delete_def fun_eq_iff)

lemma entries_under_key:
  "distinct (map_keys m) \<Longrightarrow> filter (\<lambda>p. fst p = k) (map_set k v m) = [(k, v)]"
proof (induction m)
  case Nil
  then show ?case by simp
next
  case (Cons p m)
  have "filter (\<lambda>q. fst q = k) m = []" if "fst p = k"
  proof -
    from Cons.prems that have "k \<notin> fst ` set m" by (simp add: map_keys_def)
    then show ?thesis by (force simp: filter_empty_conv)
  qed
  with Cons show ?case by (auto simp: map_keys_def)
qed

lemma fold_clean_step:
  "pendingUpdates (fold (clean_step now) es this) =
     filter (\<lambda>p. fst p \<notin> fst ` {e \<in> set es. is_old now e}) (pendingUpdates this)"
proof (induction es arbitrary: this)
  case Nil
  then show ?case by simp
next
  case (Cons e es)
  show ?case
    by (simp add: Cons.IH) (auto simp: clean_step_def is_old_def map_delete_def intro!: filter_cong)
qed

lemma cleanOldUpdates_filter:
  assumes "ledger_inv this"
  shows "pendingUpdates (cleanOldUpdates now this) =
           filter (\<lambda>p. \<not> is_old now p) (pendingUpdates this)"
proof -
  have "fst p \<in> fst ` {e \<in> set (pendingUpdates this). is_old now e} \<longleftrightarrow> is_old now p"
    if "p \<in> set (pendingUpdates this)" for p
  proof
    assume "fst p \<in> fst ` {e \<in> set (pendingUpdates this). is_old now e}"
    then obtain e where e: "e \<in> set (pendingUpdates this)" "is_old now e" "fst e = fst p"
      by auto
    from assms that e have "e = p"
      unfolding ledger_inv_def map_keys_def by (metis eq_key_imp_eq_value prod.collapse)
    with e show "is_old now p" by simp
  next
    assume "is_old now p"
    with that show "fst p \<in> fst ` {e \<in> set (pendingUpdates this). is_old now e}" by auto
  qed
  then show ?thesis
    unfolding cleanOldUpdates_def fold_clean_step by (auto intro!: filter_cong)
qed

lemma ledger_inv_do: "ledger_inv this \<Longrightarrow> ledger_inv (ledger_do c this)"
proof (cases c)
  case (Sweep now)
  assume inv: "ledger_inv this"
  have "distinct (map fst (filter P m))" if "distinct (map fst m)" for P and m :: "(string \<times> pending_update) list"
    using that by (simp add: distinct_map_filter)
  with inv cleanOldUpdates_filter [OF inv, of now] Sweep show ?thesis
    by (simp add: ledger_inv_def map_keys_def)
qed (simp_all add: ledger_inv_def addPendingUpdate_def removePendingUpdate_def ou_cleanup_def
      distinct_map_set distinct_map_delete, simp add: map_keys_def)

lemma ledger_inv_run: "ledger_inv this \<Longrightarrow> ledger_inv (ledger_run calls this)"
  unfolding ledger_run_def by (induction calls arbitrary: this) (auto simp: ledger_inv_do)

section \<open>The projection computes what the specification words\<close>

lemma findIndex_range: "- 1 \<le> findIndex P xs \<and> findIndex P xs < int (length xs)"
  by (induction xs) (auto simp: Let_def)

lemma findIndex_none: "findIndex P xs = - 1 \<longleftrightarrow> (\<forall>x \<in> set xs. \<not> P x)"
proof (induction xs)
  case Nil
  then show ?case by simp
next
  case (Cons x xs)
  have "- 1 \<le> findIndex P xs" by (simp add: findIndex_range)
  with Cons show ?case by (auto simp: Let_def)
qed

lemma remove_first_none: "findIndex P xs = - 1 \<Longrightarrow> remove_first P xs = xs"
  unfolding findIndex_none by (induction xs) auto

lemma replace_first_none: "findIndex P xs = - 1 \<Longrightarrow> replace_first P f xs = xs"
  unfolding findIndex_none by (induction xs) auto

lemma splice_at:
  "0 \<le> i \<Longrightarrow> i < int (length xs) \<Longrightarrow>
     splice i (Suc 0) xs = take (nat i) xs @ drop (Suc (nat i)) xs"
  by (simp add: splice_def Let_def min_def)

lemma splice_found:
  "findIndex P xs \<noteq> - 1 \<Longrightarrow> splice (findIndex P xs) (Suc 0) xs = remove_first P xs"
proof (induction xs)
  case Nil
  then show ?case by simp
next
  case (Cons x xs)
  show ?case
  proof (cases "P x")
    case True
    then show ?thesis by (simp add: splice_def)
  next
    case False
    with Cons.prems have found: "findIndex P xs \<noteq> - 1" by (auto simp: Let_def)
    have rng: "0 \<le> findIndex P xs" "findIndex P xs < int (length xs)"
      using found findIndex_range [of P xs] by auto
    have suc: "nat (findIndex P xs + 1) = Suc (nat (findIndex P xs))"
      using rng by simp
    have "splice (findIndex P xs + 1) (Suc 0) (x # xs) = x # splice (findIndex P xs) (Suc 0) xs"
      using rng by (simp add: splice_at suc)
    with False found Cons.IH show ?thesis by (simp add: Let_def)
  qed
qed

lemma assign_found:
  "findIndex P xs \<noteq> - 1 \<Longrightarrow>
     xs[nat (findIndex P xs) := f (xs ! nat (findIndex P xs))] = replace_first P f xs"
proof (induction xs)
  case Nil
  then show ?case by simp
next
  case (Cons x xs)
  show ?case
  proof (cases "P x")
    case True
    then show ?thesis by simp
  next
    case False
    with Cons.prems have found: "findIndex P xs \<noteq> - 1" by (auto simp: Let_def)
    have rng: "0 \<le> findIndex P xs"
      using found findIndex_range [of P xs] by auto
    then have "nat (findIndex P xs + 1) = Suc (nat (findIndex P xs))" by simp
    with False found Cons.IH show ?thesis by (simp add: Let_def)
  qed
qed

lemma spread_merge: "spread a b = merge_fields a b"
  by (simp add: spread_def merge_fields_def map_add_def fun_eq_iff split: option.splits)

lemma arr_delete_found:
  "r < length h \<Longrightarrow> arr_findIndex P r h \<noteq> - 1 \<Longrightarrow>
     arr_splice r (arr_findIndex P r h) (Suc 0) h = h[r := remove_first P (h ! r)]"
  by (simp add: arr_findIndex_def arr_splice_def splice_found)

lemma arr_delete_none:
  "r < length h \<Longrightarrow> arr_findIndex P r h = - 1 \<Longrightarrow> h[r := remove_first P (h ! r)] = h"
  by (simp add: arr_findIndex_def remove_first_none)

lemma arr_update_none:
  "r < length h \<Longrightarrow> arr_findIndex P r h = - 1 \<Longrightarrow> h[r := replace_first P f (h ! r)] = h"
  by (simp add: arr_findIndex_def replace_first_none)

lemma arr_update_found:
  assumes r: "r < length h" and found: "arr_findIndex P r h \<noteq> - 1"
  shows "arr_assign r (arr_findIndex P r h) (spread_opt (arr_at r (arr_findIndex P r h) h) d) h
           = h[r := replace_first P (\<lambda>x. merge_fields x d) (h ! r)]"
proof -
  from found have nf: "findIndex P (h ! r) \<noteq> - 1" by (simp add: arr_findIndex_def)
  have rng: "0 \<le> findIndex P (h ! r)" "findIndex P (h ! r) < int (length (h ! r))"
    using nf findIndex_range [of P "h ! r"] by auto
  then have "arr_at r (findIndex P (h ! r)) h = Some ((h ! r) ! nat (findIndex P (h ! r)))"
    by (simp add: arr_at_def)
  with nf r show ?thesis
    by (simp add: arr_findIndex_def arr_assign_def spread_opt_def spread_merge
          assign_found [of P "h ! r" "\<lambda>x. merge_fields x d"])
qed

lemma same_identity_id:
  "same_identity Habit u = (\<lambda>r. r ''id'' = u_id u)"
  "same_identity Todo u = (\<lambda>r. r ''id'' = u_id u)"
  "same_identity HabitLog u = (\<lambda>r. r ''habit_id'' = u_habitId u \<and> r ''log_date'' = u_logDate u)"
  by (simp_all add: fun_eq_iff)

lemma habits_body_eq:
  assumes "r < length h"
  shows "habits_body e r h =
     h[r := (if u_type (snd e) = class_tag Habit then spec_apply Habit (snd e) (h ! r) else h ! r)]"
  using assms unfolding habits_body_def spec_apply_def same_identity_id
  by (simp add: arr_delete_found arr_delete_none arr_update_none arr_update_found
        arr_push_def Let_def)

lemma todos_body_eq:
  assumes "r < length h"
  shows "todos_body e r h =
     h[r := (if u_type (snd e) = class_tag Todo then spec_apply Todo (snd e) (h ! r) else h ! r)]"
  using assms unfolding todos_body_def spec_apply_def same_identity_id
  by (simp add: arr_delete_found arr_delete_none arr_update_none arr_update_found
        arr_push_def Let_def)

lemma habitLogs_body_eq:
  assumes "r < length h"
  shows "habitLogs_body e r h =
     h[r := (if u_type (snd e) = class_tag HabitLog \<and> \<not> is_log_update e
             then spec_apply HabitLog (snd e) (h ! r) else h ! r)]"
  using assms unfolding habitLogs_body_def spec_apply_def is_log_update_def same_identity_id
  by (simp add: arr_delete_found arr_delete_none arr_push_def Let_def)

lemma fold_habits_body:
  "r < length h \<Longrightarrow>
   fold (\<lambda>e. habits_body e r) es h = h[r := spec_project Habit es (h ! r)]"
  by (induction es arbitrary: h) (simp_all add: spec_project_def habits_body_eq)

lemma fold_todos_body:
  "r < length h \<Longrightarrow>
   fold (\<lambda>e. todos_body e r) es h = h[r := spec_project Todo es (h ! r)]"
  by (induction es arbitrary: h) (simp_all add: spec_project_def todos_body_eq)

lemma fold_habitLogs_body:
  "r < length h \<Longrightarrow>
   fold (\<lambda>e. habitLogs_body e r) es h =
     h[r := spec_project HabitLog (filter (\<lambda>e. \<not> is_log_update e) es) (h ! r)]"
  by (induction es arbitrary: h) (simp_all add: spec_project_def habitLogs_body_eq)

lemma applyToHabits_eq:
  "applyToHabits this a h = (length h, h @ [spec_project Habit (pendingUpdates this) (h ! a)])"
  by (simp add: applyToHabits_def arr_copy_def fold_habits_body)

lemma applyToTodos_eq:
  "applyToTodos this a h = (length h, h @ [spec_project Todo (pendingUpdates this) (h ! a)])"
  by (simp add: applyToTodos_def arr_copy_def fold_todos_body)

lemma applyToHabitLogs_eq:
  "applyToHabitLogs this a h =
     (length h, h @ [spec_project HabitLog
                       (filter (\<lambda>e. \<not> is_log_update e) (pendingUpdates this)) (h ! a)])"
  by (simp add: applyToHabitLogs_def arr_copy_def fold_habitLogs_body)

section \<open>Claims about the projection\<close>

lemma ex_ledger_entries:
  "pendingUpdates (ex_ledger ty) =
     [(''k1'', (ex_update ty ''add'' None ex_added)\<lparr>u_timestamp := 1010\<rparr>),
      (''k2'', (ex_update ty ''update'' (Some (JNum 1)) [''name'' \<mapsto> JStr ''Write''])
                 \<lparr>u_timestamp := 1020\<rparr>),
      (''k3'', (ex_update ty ''delete'' (Some (JNum 2)) Map.empty)\<lparr>u_timestamp := 1030\<rparr>)]"
  by (simp add: ex_ledger_def addPendingUpdate_def OptimisticUpdates_new_def)

lemma ex_logs_ledger_entries:
  "pendingUpdates ex_logs_ledger =
     [(''l1'', (ex_update ''habitLog'' ''add'' None ex_log2)\<lparr>u_timestamp := 1010\<rparr>),
      (''l2'', ex_log_delete\<lparr>u_timestamp := 1020\<rparr>)]"
  by (simp add: ex_logs_ledger_def addPendingUpdate_def OptimisticUpdates_new_def)

lemma ex_log_ledger_entries:
  "pendingUpdates ex_log_ledger =
     [(''log-7'', (ex_update ''habitLog'' ''update'' (Some (JNum 7)) [''completed'' \<mapsto> JBool True])
                    \<lparr>u_timestamp := 1000\<rparr>)]"
  by (simp add: ex_log_ledger_def addPendingUpdate_def OptimisticUpdates_new_def)

text \<open>
  C1, as the code has it. For a live array reference \<open>a\<close>, each of the three methods
  returns a fresh array. For habits and for todos its content is the specification's
  projection: every pending update of the class applied in ledger order, an add appending
  the payload, an update replacing the first record with the target id by the merge, a
  delete removing the first record with that id. For habit logs the content is the
  specification's projection of the ledger without its habit-log updates: adds append,
  deletes remove the first record with the update's habit id and log date, and a pending
  update whose operation is \<^verbatim>\<open>update\<close> is skipped.
\<close>

theorem project_applies_ledger:
  assumes "a < length h"
  shows "fst (applyToHabits this a h) = length h
       \<and> snd (applyToHabits this a h) ! length h
           = spec_project Habit (pendingUpdates this) (h ! a)
       \<and> fst (applyToTodos this a h) = length h
       \<and> snd (applyToTodos this a h) ! length h
           = spec_project Todo (pendingUpdates this) (h ! a)
       \<and> fst (applyToHabitLogs this a h) = length h
       \<and> snd (applyToHabitLogs this a h) ! length h
           = spec_project HabitLog
               (filter (\<lambda>e. \<not> is_log_update e) (pendingUpdates this)) (h ! a)"
  by (simp add: applyToHabits_eq applyToTodos_eq applyToHabitLogs_eq)

theorem project_applies_ledger_witness:
  "(0::nat) < length [[ex_habit, ex_habit2]]
   \<and> map (\<lambda>r. r ''name'')
         (snd (applyToHabits (ex_ledger ''habit'') 0 [[ex_habit, ex_habit2]]) ! 1)
       = [Some (JStr ''Write''), Some (JStr ''Swim'')]
   \<and> map (\<lambda>r. r ''id'')
         (snd (applyToTodos (ex_ledger ''todo'') 0 [[ex_habit, ex_habit2]]) ! 1)
       = [Some (JNum 1), Some (JStr ''temp-1'')]
   \<and> (0::nat) < length [[ex_log]]
   \<and> map (\<lambda>r. r ''id'') (snd (applyToHabitLogs ex_logs_ledger 0 [[ex_log]]) ! 1)
       = [Some (JNum 8)]"
  using project_applies_ledger [of 0 "[[ex_habit, ex_habit2]]" "ex_ledger ''habit''"]
        project_applies_ledger [of 0 "[[ex_habit, ex_habit2]]" "ex_ledger ''todo''"]
        project_applies_ledger [of 0 "[[ex_log]]" ex_logs_ledger]
  by (simp add: ex_ledger_entries ex_logs_ledger_entries spec_project_def spec_apply_def
        ex_update_def ex_log_delete_def is_log_update_def ex_habit_def ex_habit2_def
        ex_added_def ex_log_def ex_log2_def merge_fields_def)

text \<open>
  C1 as stated fails for the habit-log class and the update operation: with one habit log
  and one pending habit-log update that targets it, the code returns the log unchanged,
  where the specification's projection returns the merged record.
\<close>

theorem habit_log_update_not_applied:
  "snd (applyToHabitLogs ex_log_ledger 0 [[ex_log]])
       ! fst (applyToHabitLogs ex_log_ledger 0 [[ex_log]])
     \<noteq> spec_project HabitLog (pendingUpdates ex_log_ledger) ([[ex_log]] ! 0)"
proof -
  have code: "snd (applyToHabitLogs ex_log_ledger 0 [[ex_log]])
                ! fst (applyToHabitLogs ex_log_ledger 0 [[ex_log]]) = [ex_log]"
    by (simp add: applyToHabitLogs_def arr_copy_def ex_log_ledger_entries habitLogs_body_def
          ex_update_def)
  have spec: "spec_project HabitLog (pendingUpdates ex_log_ledger) ([[ex_log]] ! 0)
                = [merge_fields ex_log [''completed'' \<mapsto> JBool True]]"
    by (simp add: ex_log_ledger_entries spec_project_def spec_apply_def ex_update_def ex_log_def)
  have "ex_log ''completed'' \<noteq> merge_fields ex_log [''completed'' \<mapsto> JBool True] ''completed''"
    by (simp add: ex_log_def merge_fields_def)
  then have "ex_log \<noteq> merge_fields ex_log [''completed'' \<mapsto> JBool True]"
    by metis
  with code spec show ?thesis by simp
qed

lemma map_of_filter_distinct:
  "distinct (map fst m) \<Longrightarrow>
     map_of (filter P m) k =
       (case map_of m k of None \<Rightarrow> None | Some v \<Rightarrow> if P (k, v) then Some v else None)"
proof (induction m)
  case Nil
  then show ?case by simp
next
  case (Cons p m)
  show ?case
  proof (cases "fst p = k")
    case True
    with Cons.prems have "k \<notin> fst ` set m" by auto
    then have none: "map_of m k = None" "map_of (filter P m) k = None"
      by (auto simp: map_of_eq_None_iff)
    from True have "p = (k, snd p)" by auto
    with none show ?thesis by (cases "P p") (auto simp: True)
  next
    case False
    with Cons show ?thesis by auto
  qed
qed

lemma ledger_inv_new: "ledger_inv OptimisticUpdates_new"
  by (simp add: ledger_inv_def OptimisticUpdates_new_def map_keys_def)

lemma applyToHabits_cong:
  "pendingUpdates this' = pendingUpdates this \<Longrightarrow> applyToHabits this' a h = applyToHabits this a h"
  by (simp add: applyToHabits_def)

lemma applyToTodos_cong:
  "pendingUpdates this' = pendingUpdates this \<Longrightarrow> applyToTodos this' a h = applyToTodos this a h"
  by (simp add: applyToTodos_def)

lemma applyToHabitLogs_cong:
  "pendingUpdates this' = pendingUpdates this \<Longrightarrow>
     applyToHabitLogs this' a h = applyToHabitLogs this a h"
  by (simp add: applyToHabitLogs_def)

text \<open>
  C9. A call of any of the three projection methods on a live array reference \<open>a\<close>
  leaves every array that existed before the call as it was, the base \<open>a\<close> among
  them, whatever the ledger holds; the array it returns is not the base.
\<close>

theorem project_leaves_base_unchanged:
  assumes "a < length h"
  shows "(\<forall>b < length h.
            snd (applyToHabits this a h) ! b = h ! b
          \<and> snd (applyToHabitLogs this a h) ! b = h ! b
          \<and> snd (applyToTodos this a h) ! b = h ! b)
       \<and> fst (applyToHabits this a h) \<noteq> a
       \<and> fst (applyToHabitLogs this a h) \<noteq> a
       \<and> fst (applyToTodos this a h) \<noteq> a"
  using assms by (simp add: applyToHabits_eq applyToTodos_eq applyToHabitLogs_eq nth_append)

text \<open>
  C9 on a ledger holding an add, an update and a delete.
\<close>

theorem project_leaves_base_unchanged_witness:
  "(0::nat) < length [[ex_habit, ex_habit2]]
   \<and> snd (applyToHabits (ex_ledger ''habit'') 0 [[ex_habit, ex_habit2]]) ! 0 = [ex_habit, ex_habit2]
   \<and> snd (applyToHabitLogs ex_logs_ledger 0 [[ex_habit, ex_habit2]]) ! 0 = [ex_habit, ex_habit2]
   \<and> snd (applyToTodos (ex_ledger ''todo'') 0 [[ex_habit, ex_habit2]]) ! 0 = [ex_habit, ex_habit2]
   \<and> fst (applyToHabits (ex_ledger ''habit'') 0 [[ex_habit, ex_habit2]]) \<noteq> 0"
  using project_leaves_base_unchanged [of 0 "[[ex_habit, ex_habit2]]" "ex_ledger ''habit''"]
        project_leaves_base_unchanged [of 0 "[[ex_habit, ex_habit2]]" ex_logs_ledger]
        project_leaves_base_unchanged [of 0 "[[ex_habit, ex_habit2]]" "ex_ledger ''todo''"]
  by simp

text \<open>
  C6. The content of the array a projection returns depends only on the content of the
  base and on the ledger's entries: two calls, made in any two stores, whose bases hold the
  same records and whose ledgers hold the same entries return arrays with equal content.
\<close>

theorem project_deterministic:
  assumes "a < length h" and "a' < length h'"
    and "h' ! a' = h ! a" and "pendingUpdates this' = pendingUpdates this"
  shows "snd (applyToHabits this' a' h') ! fst (applyToHabits this' a' h')
           = snd (applyToHabits this a h) ! fst (applyToHabits this a h)
       \<and> snd (applyToHabitLogs this' a' h') ! fst (applyToHabitLogs this' a' h')
           = snd (applyToHabitLogs this a h) ! fst (applyToHabitLogs this a h)
       \<and> snd (applyToTodos this' a' h') ! fst (applyToTodos this' a' h')
           = snd (applyToTodos this a h) ! fst (applyToTodos this a h)"
  using assms by (simp add: applyToHabits_eq applyToTodos_eq applyToHabitLogs_eq)

text \<open>
  C6 for a second call made in the store the first call left.
\<close>

theorem project_deterministic_witness:
  "(0::nat) < length [[ex_habit, ex_habit2]]
   \<and> 0 < length (snd (applyToHabits (ex_ledger ''habit'') 0 [[ex_habit, ex_habit2]]))
   \<and> snd (applyToHabits (ex_ledger ''habit'') 0 [[ex_habit, ex_habit2]]) ! 0
        = [[ex_habit, ex_habit2]] ! 0
   \<and> snd (applyToHabits (ex_ledger ''habit'') 0
             (snd (applyToHabits (ex_ledger ''habit'') 0 [[ex_habit, ex_habit2]]))) ! 2
        = snd (applyToHabits (ex_ledger ''habit'') 0 [[ex_habit, ex_habit2]]) ! 1"
proof -
  let ?h = "[[ex_habit, ex_habit2]]"
  let ?h1 = "snd (applyToHabits (ex_ledger ''habit'') 0 ?h)"
  have a: "(0::nat) < length ?h" by simp
  have b: "0 < length ?h1" by (simp add: applyToHabits_eq)
  have c: "?h1 ! 0 = ?h ! 0" by (simp add: applyToHabits_eq)
  have r1: "fst (applyToHabits (ex_ledger ''habit'') 0 ?h) = 1" by (simp add: applyToHabits_eq)
  have r2: "fst (applyToHabits (ex_ledger ''habit'') 0 ?h1) = 2" by (simp add: applyToHabits_eq)
  from project_deterministic [of 0 ?h 0 ?h1 "ex_ledger ''habit''" "ex_ledger ''habit''", OF a b c refl]
    a b c r1 r2
  show ?thesis by simp
qed

text \<open>
  C7. On a ledger with one entry per key, \<^verbatim>\<open>cleanOldUpdates\<close> keeps, in their order
  and unchanged, exactly the entries that are at most 30000 ms old at the time of the
  sweep: a key whose entry is older has no entry afterwards, a key whose entry is not older
  keeps it, and a projection made after the sweep is the projection of the kept entries.
\<close>

theorem sweep_evicts_stale_entries:
  assumes "ledger_inv this"
  shows "pendingUpdates (cleanOldUpdates now this)
           = filter (\<lambda>e. \<not> is_old now e) (pendingUpdates this)
       \<and> (\<forall>k u. getPendingUpdate k this = Some u \<longrightarrow>
              getPendingUpdate k (cleanOldUpdates now this)
                = (if now - u_timestamp u > 30000 then None else Some u))
       \<and> (\<forall>k. getPendingUpdate k this = None \<longrightarrow>
              getPendingUpdate k (cleanOldUpdates now this) = None)
       \<and> applyToHabits (cleanOldUpdates now this) a h
           = applyToHabits (this\<lparr>pendingUpdates := filter (\<lambda>e. \<not> is_old now e) (pendingUpdates this)\<rparr>) a h
       \<and> applyToHabitLogs (cleanOldUpdates now this) a h
           = applyToHabitLogs (this\<lparr>pendingUpdates := filter (\<lambda>e. \<not> is_old now e) (pendingUpdates this)\<rparr>) a h
       \<and> applyToTodos (cleanOldUpdates now this) a h
           = applyToTodos (this\<lparr>pendingUpdates := filter (\<lambda>e. \<not> is_old now e) (pendingUpdates this)\<rparr>) a h"
proof -
  note eq = cleanOldUpdates_filter [OF assms, of now]
  from assms have d: "distinct (map fst (pendingUpdates this))"
    by (simp add: ledger_inv_def map_keys_def)
  have look: "getPendingUpdate k (cleanOldUpdates now this)
      = (case getPendingUpdate k this of None \<Rightarrow> None
         | Some u \<Rightarrow> if now - u_timestamp u > 30000 then None else Some u)" for k
    unfolding getPendingUpdate_def map_get_def eq
    by (simp add: map_of_filter_distinct [OF d] is_old_def split: option.splits)
  show ?thesis
    by (simp add: eq look applyToHabits_cong applyToHabitLogs_cong applyToTodos_cong)
qed

text \<open>
  C7 at time 31025 on a ledger stamped 1010, 1020 and 1030.
\<close>

theorem sweep_evicts_stale_entries_witness:
  "ledger_inv (ex_ledger ''habit'')
   \<and> map fst (pendingUpdates (cleanOldUpdates 31025 (ex_ledger ''habit''))) = [''k3'']
   \<and> getPendingUpdate ''k1'' (cleanOldUpdates 31025 (ex_ledger ''habit'')) = None
   \<and> getPendingUpdate ''k3'' (cleanOldUpdates 31025 (ex_ledger ''habit''))
       = getPendingUpdate ''k3'' (ex_ledger ''habit'')
   \<and> map (\<lambda>r. r ''name'')
        (snd (applyToHabits (cleanOldUpdates 31025 (ex_ledger ''habit'')) 0 [[ex_habit, ex_habit2]]) ! 1)
       = [Some (JStr ''Read'')]"
proof -
  have inv: "ledger_inv (ex_ledger ''habit'')"
    by (simp add: ledger_inv_def map_keys_def ex_ledger_entries)
  from sweep_evicts_stale_entries [OF inv, of 31025 0 "[[ex_habit, ex_habit2]]"] inv
  show ?thesis
    by (simp add: ex_ledger_entries is_old_def ex_update_def getPendingUpdate_def map_get_def
          applyToHabits_def arr_copy_def habits_body_def arr_findIndex_def arr_splice_def
          splice_def ex_habit_def ex_habit2_def)
qed

text \<open>
  C8. Every ledger reached from the empty one by the ledger's calls has one entry per key.
  On such a ledger, \<^verbatim>\<open>addPendingUpdate\<close> of \<open>A\<close> and then of \<open>B\<close> under the same
  key leaves the ledger that the second call alone would leave, so a projection sees only
  \<open>B\<close>; the key has exactly one entry, \<open>B\<close> stamped with the time of the second call,
  and \<^verbatim>\<open>getPendingUpdate\<close> returns it.
\<close>

theorem put_twice_keeps_last:
  "ledger_inv (ledger_run cs OptimisticUpdates_new)
   \<and> (ledger_inv this \<longrightarrow>
        addPendingUpdate k B t2 (addPendingUpdate k A t1 this) = addPendingUpdate k B t2 this
      \<and> filter (\<lambda>e. fst e = k)
           (pendingUpdates (addPendingUpdate k B t2 (addPendingUpdate k A t1 this)))
          = [(k, B\<lparr>u_timestamp := t2\<rparr>)]
      \<and> getPendingUpdate k (addPendingUpdate k B t2 (addPendingUpdate k A t1 this))
          = Some (B\<lparr>u_timestamp := t2\<rparr>)
      \<and> ledger_inv (addPendingUpdate k B t2 (addPendingUpdate k A t1 this)))"
proof -
  have twice: "addPendingUpdate k B t2 (addPendingUpdate k A t1 this) = addPendingUpdate k B t2 this"
    by (simp add: addPendingUpdate_def map_set_twice)
  have "ledger_inv (ledger_run cs OptimisticUpdates_new)"
    by (rule ledger_inv_run [OF ledger_inv_new])
  moreover have "filter (\<lambda>e. fst e = k) (pendingUpdates (addPendingUpdate k B t2 this))
                   = [(k, B\<lparr>u_timestamp := t2\<rparr>)]" if "ledger_inv this"
    using that by (simp add: addPendingUpdate_def ledger_inv_def entries_under_key)
  moreover have "getPendingUpdate k (addPendingUpdate k B t2 this) = Some (B\<lparr>u_timestamp := t2\<rparr>)"
    by (simp add: getPendingUpdate_def addPendingUpdate_def map_get_def map_of_map_set)
  moreover have "ledger_inv (addPendingUpdate k B t2 this)" if "ledger_inv this"
    using that by (simp add: addPendingUpdate_def ledger_inv_def distinct_map_set)
  ultimately show ?thesis by (simp add: twice)
qed

text \<open>
  C8 on a ledger that already holds the key.
\<close>

theorem put_twice_keeps_last_witness:
  "ledger_inv (ex_ledger ''habit'')
   \<and> map fst (pendingUpdates
        (addPendingUpdate ''k2'' (ex_update ''habit'' ''delete'' (Some (JNum 1)) Map.empty) 2000
          (addPendingUpdate ''k2'' (ex_update ''habit'' ''add'' None ex_habit2) 1500
            (ex_ledger ''habit''))))
       = [''k1'', ''k2'', ''k3'']
   \<and> map_option u_operation (getPendingUpdate ''k2''
        (addPendingUpdate ''k2'' (ex_update ''habit'' ''delete'' (Some (JNum 1)) Map.empty) 2000
          (addPendingUpdate ''k2'' (ex_update ''habit'' ''add'' None ex_habit2) 1500
            (ex_ledger ''habit'')))) = Some ''delete''
   \<and> map_option u_timestamp (getPendingUpdate ''k2''
        (addPendingUpdate ''k2'' (ex_update ''habit'' ''delete'' (Some (JNum 1)) Map.empty) 2000
          (addPendingUpdate ''k2'' (ex_update ''habit'' ''add'' None ex_habit2) 1500
            (ex_ledger ''habit'')))) = Some 2000"
proof -
  have inv: "ledger_inv (ex_ledger ''habit'')"
    by (simp add: ledger_inv_def map_keys_def ex_ledger_entries)
  from put_twice_keeps_last [of "[]" "ex_ledger ''habit''" "''k2''"
         "ex_update ''habit'' ''delete'' (Some (JNum 1)) Map.empty" 2000
         "ex_update ''habit'' ''add'' None ex_habit2" 1500] inv
  show ?thesis
    by (simp add: addPendingUpdate_def ex_ledger_entries ex_update_def)
qed

section \<open>Claims about the cache\<close>

lemma map_has_map_delete: "\<not> map_has k (map_delete k m)"
  by (simp add: map_has_def map_of_map_delete)

lemma map_get_map_set: "map_get k (map_set k v m) = Some v"
  by (simp add: map_get_def map_of_map_set)

lemma map_has_map_set: "map_has k (map_set k v m)"
  by (simp add: map_has_def map_of_map_set)

lemma cache_get_after_set:
  "cache_get k now (cache_set k v t0 this) =
     (if now - t0 > ttl this
      then (Null, this\<lparr>cache := map_delete k (map_set k \<lparr>item_value = v, item_timestamp = t0\<rparr> (cache this))\<rparr>)
      else (v, cache_set k v t0 this))"
  by (simp add: cache_get_def cache_set_def map_get_map_set)

text \<open>
  C3. After \<^verbatim>\<open>set(k, v)\<close> at time \<open>t0\<close>, a \<^verbatim>\<open>get(k)\<close> at time \<open>now\<close> returns
  \<open>v\<close> and leaves the cache as it is when \<open>now - t0\<close> is at most the time-to-live; when
  \<open>now - t0\<close> exceeds it, the call returns \<^verbatim>\<open>null\<close> and the key has no entry
  afterwards. At one millisecond less than the time-to-live the value is returned, at one
  millisecond more the entry is gone.
\<close>

theorem cache_ttl_boundary:
  "(now - t0 \<le> ttl this \<longrightarrow>
      cache_get k now (cache_set k v t0 this) = (v, cache_set k v t0 this))
   \<and> (now - t0 > ttl this \<longrightarrow>
        fst (cache_get k now (cache_set k v t0 this)) = Null
      \<and> \<not> map_has k (cache (snd (cache_get k now (cache_set k v t0 this)))))
   \<and> fst (cache_get k (t0 + (ttl this - 1)) (cache_set k v t0 this)) = v
   \<and> fst (cache_get k (t0 + (ttl this + 1)) (cache_set k v t0 this)) = Null
   \<and> \<not> map_has k (cache (snd (cache_get k (t0 + (ttl this + 1)) (cache_set k v t0 this))))"
  by (simp add: cache_get_after_set map_has_map_delete)

text \<open>
  C3 with the default time-to-live of 300000 ms.
\<close>

theorem cache_ttl_boundary_witness:
  "cache_get ''data-u1-2024-01'' (1000 + 299999) ex_cache = (Val ''snapshot'', ex_cache)
   \<and> fst (cache_get ''data-u1-2024-01'' (1000 + 300000) ex_cache) = Val ''snapshot''
   \<and> fst (cache_get ''data-u1-2024-01'' (1000 + 300001) ex_cache) = Null
   \<and> cache (snd (cache_get ''data-u1-2024-01'' (1000 + 300001) ex_cache)) = []"
proof -
  let ?c = "DataCache_new default_ttl :: string data_cache"
  have t: "ttl ?c = 300000" by (simp add: DataCache_new_def default_ttl_def)
  have del: "cache (snd (cache_get ''data-u1-2024-01'' 301001 ex_cache)) = []"
    by (simp add: ex_cache_def cache_get_def cache_set_def DataCache_new_def default_ttl_def
          map_get_def map_delete_def)
  from cache_ttl_boundary [of 300999 1000 ?c "''data-u1-2024-01''" "Val ''snapshot''"]
       cache_ttl_boundary [of 301000 1000 ?c "''data-u1-2024-01''" "Val ''snapshot''"]
       cache_ttl_boundary [of 301001 1000 ?c "''data-u1-2024-01''" "Val ''snapshot''"] t del
  show ?thesis by (simp add: ex_cache_def)
qed

text \<open>
  C10. \<^verbatim>\<open>get\<close> returns \<^verbatim>\<open>null\<close> for a key that has no entry, for a key whose entry
  has expired and for any key after \<^verbatim>\<open>clear\<close>; it also returns \<^verbatim>\<open>null\<close> for a key
  that holds the value \<^verbatim>\<open>null\<close> in an entry that is still live and stays cached.
\<close>

theorem cache_null_is_ambiguous:
  "(\<not> map_has k (cache this) \<longrightarrow> cache_get k now this = (Null, this))
   \<and> (\<forall>item. map_get k (cache this) = Some item \<and> now - item_timestamp item > ttl this \<longrightarrow>
         fst (cache_get k now this) = Null)
   \<and> fst (cache_get k now (cache_clear this)) = Null
   \<and> (now - t0 \<le> ttl this \<longrightarrow>
        fst (cache_get k now (cache_set k Null t0 this)) = Null
      \<and> map_has k (cache (snd (cache_get k now (cache_set k Null t0 this)))))"
proof -
  have "cache_get k now this = (Null, this)" if "\<not> map_has k (cache this)"
    using that by (simp add: cache_get_def map_has_def map_get_def)
  moreover have "fst (cache_get k now this) = Null"
    if "map_get k (cache this) = Some item" "now - item_timestamp item > ttl this" for item
    using that by (simp add: cache_get_def)
  moreover have "fst (cache_get k now (cache_clear this)) = Null"
    by (simp add: cache_get_def cache_clear_def map_get_def)
  moreover have "fst (cache_get k now (cache_set k Null t0 this)) = Null
      \<and> map_has k (cache (snd (cache_get k now (cache_set k Null t0 this))))"
    if "now - t0 \<le> ttl this"
    using that by (simp add: cache_get_after_set) (simp add: cache_set_def map_has_map_set)
  ultimately show ?thesis by blast
qed

text \<open>
  C10: the same answer for a key that is cached and for one that is not.
\<close>

theorem cache_null_is_ambiguous_witness:
  "\<not> map_has ''other'' (cache ex_cache)
   \<and> fst (cache_get ''other'' 2000 ex_cache) = Null
   \<and> fst (cache_get ''data-u1-2024-01'' 400000 ex_cache) = Null
   \<and> fst (cache_get ''data-u1-2024-01'' 2000 (cache_clear ex_cache)) = Null
   \<and> fst (cache_get ''other'' 2000 (cache_set ''other'' Null 1500 ex_cache)) = Null
   \<and> map_has ''other'' (cache (snd (cache_get ''other'' 2000 (cache_set ''other'' Null 1500 ex_cache))))"
proof -
  have a: "\<not> map_has ''other'' (cache ex_cache)"
    by (simp add: ex_cache_def cache_set_def DataCache_new_def map_has_def)
  have b: "map_get ''data-u1-2024-01'' (cache ex_cache)
             = Some \<lparr>item_value = Val ''snapshot'', item_timestamp = 1000\<rparr>
           \<and> 400000 - item_timestamp \<lparr>item_value = Val ''snapshot'', item_timestamp = 1000\<rparr>
               > ttl ex_cache"
    by (simp add: ex_cache_def cache_set_def DataCache_new_def map_get_def default_ttl_def)
  have c: "2000 - 1500 \<le> ttl ex_cache"
    by (simp add: ex_cache_def cache_set_def DataCache_new_def default_ttl_def)
  from cache_null_is_ambiguous [of "''other''" ex_cache 2000 1500]
       cache_null_is_ambiguous [of "''data-u1-2024-01''" ex_cache 400000 0]
       cache_null_is_ambiguous [of "''data-u1-2024-01''" ex_cache 2000 0] a b c
  show ?thesis by simp
qed

section \<open>Facts about the registry\<close>

lemma map_has_keys: "map_has k m \<longleftrightarrow> k \<in> set (map_keys m)"
  by (simp add: map_has_def map_keys_def map_of_eq_None_iff)

lemma map_get_None_keys: "map_get k m = None \<longleftrightarrow> k \<notin> set (map_keys m)"
  by (simp add: map_get_def map_keys_def map_of_eq_None_iff)

lemma map_get_Some_mem: "map_get k m = Some v \<Longrightarrow> (k, v) \<in> set m"
  by (simp add: map_get_def map_of_SomeD)

lemma set_map_set: "set (map_set k v m) \<subseteq> insert (k, v) (set m)"
  by (induction m) auto

lemma set_map_delete: "set (map_delete k m) \<subseteq> set m"
  by (auto simp: map_delete_def)

lemma set_keys_map_set: "set (map_keys (map_set k v m)) = insert k (set (map_keys m))"
  by (auto simp: map_keys_map_set)

lemma set_keys_map_delete: "set (map_keys (map_delete k m)) = set (map_keys m) - {k}"
  by (auto simp: map_keys_map_delete)

lemma map_get_map_set_other: "k' \<noteq> k \<Longrightarrow> map_get k' (map_set k v m) = map_get k' m"
  by (simp add: map_get_def map_of_map_set)

lemma map_get_map_delete: "map_get k' (map_delete k m) = (if k' = k then None else map_get k' m)"
  by (simp add: map_get_def map_of_map_delete)

lemma map_has_map_set_iff: "map_has k' (map_set k v m) \<longleftrightarrow> k' = k \<or> map_has k' m"
  by (simp add: map_has_def map_of_map_set)

lemma map_has_map_delete_iff: "map_has k' (map_delete k m) \<longleftrightarrow> k' \<noteq> k \<and> map_has k' m"
  by (simp add: map_has_def map_of_map_delete)

lemma channel_name_inj: "channel_name k = channel_name k' \<longleftrightarrow> k = k'"
  by (simp add: channel_name_def)

text \<open>Closed forms of the two registry calls.\<close>

lemma subscribe_eq:
  "subscribe table cb flt this =
     (let key = subscriptionKey table flt;
          this2 = this\<lparr>callbacks := map_set key (set_add cb (observers key this)) (callbacks this)\<rparr>
      in if map_has key (subscriptions this) then this2
         else this2\<lparr>transport := transport this @ [ChannelSubscribe (channel_name key)],
                    subscriptions := map_set key (channel_name key) (subscriptions this)\<rparr>)"
proof (cases "map_get (subscriptionKey table flt) (callbacks this)")
  case None
  then show ?thesis
    by (simp add: subscribe_def Let_def map_has_def map_get_def observers_def map_of_map_set
          map_set_twice)
next
  case (Some s)
  then show ?thesis
    by (simp add: subscribe_def Let_def map_has_def map_get_def observers_def)
qed

lemma unsubscribe_eq:
  "unsubscribe key cb this =
     (case map_get key (callbacks this) of
        None \<Rightarrow> this
      | Some s \<Rightarrow>
          if set_delete cb s = []
          then this\<lparr>callbacks := map_delete key (callbacks this),
                    transport := transport this @
                      (case map_get key (subscriptions this) of
                         Some ch \<Rightarrow> [ChannelUnsubscribe ch] | None \<Rightarrow> []),
                    subscriptions := map_delete key (subscriptions this)\<rparr>
          else this\<lparr>callbacks := map_set key (set_delete cb s) (callbacks this)\<rparr>)"
proof (cases "map_get key (callbacks this)")
  case None
  then show ?thesis by (simp add: unsubscribe_def)
next
  case (Some s)
  have del: "map_delete key (map_set key v m) = map_delete key m" for v and m :: "(string \<times> callback list) list"
    by (induction m) (auto simp: map_delete_def)
  from Some show ?thesis
    by (simp add: unsubscribe_def Let_def map_get_map_set del)
qed


lemma set_add_nonempty: "set_add x s \<noteq> []"
  by (auto simp: set_add_def)

lemma distinct_set_add: "distinct s \<Longrightarrow> distinct (set_add x s)"
  by (simp add: set_add_def)


lemma observers_inv:
  assumes "registry_inv this"
  shows "distinct (observers k this)"
    and "map_has k (subscriptions this) \<longleftrightarrow> observers k this \<noteq> []"
proof -
  show "distinct (observers k this)"
  proof (cases "map_get k (callbacks this)")
    case None
    then show ?thesis by (simp add: observers_def)
  next
    case (Some s)
    then have "(k, s) \<in> set (callbacks this)" by (rule map_get_Some_mem)
    with assms have "distinct s" by (auto simp: registry_inv_def)
    with Some show ?thesis by (simp add: observers_def)
  qed
  show "map_has k (subscriptions this) \<longleftrightarrow> observers k this \<noteq> []"
  proof (cases "map_get k (callbacks this)")
    case None
    then have "k \<notin> set (map_keys (callbacks this))" by (simp add: map_get_None_keys)
    with assms have "\<not> map_has k (subscriptions this)"
      by (simp add: map_has_keys registry_inv_def)
    with None show ?thesis by (simp add: observers_def)
  next
    case (Some s)
    then have mem: "(k, s) \<in> set (callbacks this)" by (rule map_get_Some_mem)
    with assms have "s \<noteq> []" by (auto simp: registry_inv_def)
    moreover from mem have "k \<in> set (map_keys (callbacks this))"
      by (force simp: map_keys_def)
    with assms have "map_has k (subscriptions this)"
      by (simp add: map_has_keys registry_inv_def)
    ultimately show ?thesis using Some by (simp add: observers_def)
  qed
qed

lemma subscription_name:
  assumes "registry_inv this" and "map_get k (callbacks this) = Some s"
  shows "map_get k (subscriptions this) = Some (channel_name k)"
proof -
  from assms(2) have "(k, s) \<in> set (callbacks this)" by (rule map_get_Some_mem)
  then have "k \<in> set (map_keys (callbacks this))" by (force simp: map_keys_def)
  with assms(1) have "k \<in> set (map_keys (subscriptions this))" by (simp add: registry_inv_def)
  then obtain ch where ch: "map_get k (subscriptions this) = Some ch"
    using map_get_None_keys [of k "subscriptions this"] by (cases "map_get k (subscriptions this)") auto
  then have "(k, ch) \<in> set (subscriptions this)" by (rule map_get_Some_mem)
  with assms(1) have "ch = channel_name k" by (auto simp: registry_inv_def)
  with ch show ?thesis by simp
qed

lemma registry_inv_new: "registry_inv RealtimeManager_new"
  by (simp add: registry_inv_def RealtimeManager_new_def map_keys_def)

lemma registry_inv_subscribe:
  assumes "registry_inv this"
  shows "registry_inv (subscribe table cb flt this)"
proof -
  let ?k = "subscriptionKey table flt"
  let ?s = "set_add cb (observers ?k this)"
  have good: "?s \<noteq> [] \<and> distinct ?s"
    using observers_inv(1) [OF assms, of ?k] by (simp add: set_add_nonempty distinct_set_add)
  have cbs: "\<forall>e \<in> set (map_set ?k ?s (callbacks this)). snd e \<noteq> [] \<and> distinct (snd e)"
    using assms good set_map_set [of ?k ?s "callbacks this"]
    by (auto simp: registry_inv_def)
  have subs: "\<forall>e \<in> set (map_set ?k (channel_name ?k) (subscriptions this)).
                 snd e = channel_name (fst e)"
    using assms set_map_set [of ?k "channel_name ?k" "subscriptions this"]
    by (auto simp: registry_inv_def)
  show ?thesis
  proof (cases "map_has ?k (subscriptions this)")
    case True
    then have "?k \<in> set (map_keys (subscriptions this))" by (simp add: map_has_keys)
    with assms True cbs show ?thesis
      by (simp add: subscribe_eq Let_def)
         (auto simp: registry_inv_def distinct_map_set set_keys_map_set)
  next
    case False
    with assms cbs subs show ?thesis
      by (simp add: subscribe_eq Let_def)
         (simp add: registry_inv_def distinct_map_set set_keys_map_set)
  qed
qed

lemma registry_inv_unsubscribe:
  assumes "registry_inv this"
  shows "registry_inv (unsubscribe key cb this)"
proof (cases "map_get key (callbacks this)")
  case None
  with assms show ?thesis by (simp add: unsubscribe_eq)
next
  case (Some s)
  then have mem: "(key, s) \<in> set (callbacks this)" by (rule map_get_Some_mem)
  then have key: "key \<in> set (map_keys (callbacks this))" by (force simp: map_keys_def)
  show ?thesis
  proof (cases "set_delete cb s = []")
    case True
    have "\<forall>e \<in> set (map_delete key (callbacks this)). snd e \<noteq> [] \<and> distinct (snd e)"
      using assms set_map_delete [of key "callbacks this"] by (auto simp: registry_inv_def)
    moreover have "\<forall>e \<in> set (map_delete key (subscriptions this)). snd e = channel_name (fst e)"
      using assms set_map_delete [of key "subscriptions this"] by (auto simp: registry_inv_def)
    ultimately show ?thesis using assms Some True
      by (simp add: unsubscribe_eq)
         (simp add: registry_inv_def distinct_map_delete set_keys_map_delete)
  next
    case False
    from assms mem have "distinct s" by (auto simp: registry_inv_def)
    then have "distinct (set_delete cb s)" by (simp add: set_delete_def distinct_removeAll)
    with False assms set_map_set [of key "set_delete cb s" "callbacks this"]
    have "\<forall>e \<in> set (map_set key (set_delete cb s) (callbacks this)).
            snd e \<noteq> [] \<and> distinct (snd e)"
      by (auto simp: registry_inv_def)
    with assms Some False key show ?thesis
      by (simp add: unsubscribe_eq)
         (auto simp: registry_inv_def distinct_map_set set_keys_map_set)
  qed
qed

lemma registry_inv_cleanup: "registry_inv (rm_cleanup this)"
  by (simp add: registry_inv_def rm_cleanup_def map_keys_def)

lemma registry_inv_do: "registry_inv this \<Longrightarrow> registry_inv (registry_do c this)"
  by (cases c) (simp_all add: registry_inv_subscribe registry_inv_unsubscribe registry_inv_cleanup)

lemma registry_inv_run: "registry_inv this \<Longrightarrow> registry_inv (registry_run cs this)"
  unfolding registry_run_def by (induction cs arbitrary: this) (simp_all add: registry_inv_do)


lemma registry_balanced_new: "registry_balanced RealtimeManager_new"
  by (simp add: registry_balanced_def RealtimeManager_new_def opened_def closed_def map_has_def)

lemma registry_balanced_subscribe:
  assumes "registry_balanced this"
  shows "registry_balanced (subscribe table cb flt this)"
proof (cases "map_has (subscriptionKey table flt) (subscriptions this)")
  case True
  with assms show ?thesis
    by (simp add: subscribe_eq Let_def registry_balanced_def opened_def closed_def)
next
  case False
  with assms show ?thesis
    by (simp add: subscribe_eq Let_def registry_balanced_def opened_def closed_def
          map_has_map_set_iff channel_name_inj)
qed

lemma registry_balanced_unsubscribe:
  assumes "registry_inv this" and "registry_balanced this"
  shows "registry_balanced (unsubscribe key cb this)"
proof (cases "map_get key (callbacks this)")
  case None
  with assms show ?thesis by (simp add: unsubscribe_eq)
next
  case (Some s)
  note name = subscription_name [OF assms(1) Some]
  then have has: "map_has key (subscriptions this)" by (simp add: map_has_def map_get_def)
  show ?thesis
  proof (cases "set_delete cb s = []")
    case True
    with assms(2) Some name has show ?thesis
      by (simp add: unsubscribe_eq registry_balanced_def opened_def closed_def
            map_has_map_delete_iff channel_name_inj)
  next
    case False
    with assms(2) Some show ?thesis
      by (simp add: unsubscribe_eq registry_balanced_def opened_def closed_def)
  qed
qed

lemma count_key:
  "distinct (map fst m) \<Longrightarrow>
     length (filter (\<lambda>e. fst e = k) m) = (if k \<in> fst ` set m then 1 else 0)"
proof (induction m)
  case Nil
  then show ?case by simp
next
  case (Cons p m)
  then show ?case by (cases "fst p = k") (auto simp: filter_empty_conv)
qed

lemma count_channel_unsubscribe:
  assumes "distinct (map fst m)" and "\<forall>e \<in> set m. snd e = channel_name (fst e)"
  shows "length (filter (\<lambda>e. e = ChannelUnsubscribe (channel_name k))
               (map (\<lambda>e. ChannelUnsubscribe (snd e)) m))
           = (if k \<in> fst ` set m then 1 else 0)"
proof -
  have "filter ((\<lambda>e. e = ChannelUnsubscribe (channel_name k)) \<circ> (\<lambda>e. ChannelUnsubscribe (snd e))) m
          = filter (\<lambda>e. fst e = k) m"
    using assms(2) by (intro filter_cong) (auto simp: channel_name_inj)
  then show ?thesis
    using count_key [OF assms(1), of k] by (simp add: filter_map)
qed

lemma registry_balanced_cleanup:
  assumes "registry_inv this" and "registry_balanced this"
  shows "registry_balanced (rm_cleanup this)"
proof -
  have "length (filter (\<lambda>e. e = ChannelUnsubscribe (channel_name k))
               (map (\<lambda>e. ChannelUnsubscribe (snd e)) (subscriptions this)))
          = (if map_has k (subscriptions this) then 1 else 0)" for k
    using assms(1) count_channel_unsubscribe [of "subscriptions this" k]
    by (simp add: registry_inv_def map_has_keys map_keys_def)
  with assms(2) show ?thesis
    by (simp add: registry_balanced_def rm_cleanup_def opened_def closed_def map_has_def)
qed

lemma registry_balanced_run:
  "registry_inv this \<Longrightarrow> registry_balanced this \<Longrightarrow> registry_balanced (registry_run cs this)"
  unfolding registry_run_def
proof (induction cs arbitrary: this)
  case Nil
  then show ?case by simp
next
  case (Cons c cs)
  have "registry_balanced (registry_do c this)"
    using Cons.prems
    by (cases c) (simp_all add: registry_balanced_subscribe registry_balanced_unsubscribe
                    registry_balanced_cleanup)
  with Cons.IH [OF registry_inv_do [OF Cons.prems(1)]] show ?case by simp
qed

text \<open>N subscribe calls on one key, then unsubscribe calls.\<close>

lemma subscribe_unwatched:
  assumes "unwatched (subscriptionKey table flt) this"
  shows "watched (subscriptionKey table flt) [cb] (subscribe table cb flt this)"
    and "transport (subscribe table cb flt this)
           = transport this @ [ChannelSubscribe (channel_name (subscriptionKey table flt))]"
  using assms
  by (simp_all add: subscribe_eq Let_def unwatched_def watched_def map_has_def map_get_def
        observers_def map_of_map_set set_add_def)

lemma subscribe_watched:
  assumes "watched (subscriptionKey table flt) cbs this"
  shows "watched (subscriptionKey table flt) (set_add cb cbs) (subscribe table cb flt this)"
    and "transport (subscribe table cb flt this) = transport this"
  using assms
  by (simp_all add: subscribe_eq Let_def watched_def map_has_def map_get_def
        observers_def map_of_map_set set_add_nonempty)

lemma fold_subscribe_watched:
  "watched (subscriptionKey table flt) cbs this \<Longrightarrow> distinct (cbs @ rest) \<Longrightarrow>
     watched (subscriptionKey table flt) (cbs @ rest)
       (fold (\<lambda>cb. subscribe table cb flt) rest this)
     \<and> transport (fold (\<lambda>cb. subscribe table cb flt) rest this) = transport this"
proof (induction rest arbitrary: cbs this)
  case Nil
  then show ?case by simp
next
  case (Cons c rest)
  from Cons.prems(2) have add: "set_add c cbs = cbs @ [c]" by (simp add: set_add_def)
  note w = subscribe_watched [OF Cons.prems(1), of c]
  from Cons.IH [of "cbs @ [c]" "subscribe table c flt this"] w Cons.prems(2) add
  show ?case by simp
qed

lemma unsubscribe_unwatched: "unwatched key this \<Longrightarrow> unsubscribe key cb this = this"
  by (simp add: unsubscribe_eq unwatched_def)

lemma fold_unsubscribe_unwatched:
  "unwatched key this \<Longrightarrow> fold (unsubscribe key) ds this = this"
  by (induction ds) (simp_all add: unsubscribe_unwatched)

lemma unsubscribe_watched_last:
  assumes "watched key cbs this" and "removeAll d cbs = []"
  shows "unwatched key (unsubscribe key d this)"
    and "transport (unsubscribe key d this)
           = transport this @ [ChannelUnsubscribe (channel_name key)]"
  using assms
  by (simp_all add: unsubscribe_eq watched_def unwatched_def set_delete_def map_get_map_delete)

lemma unsubscribe_watched_more:
  assumes "watched key cbs this" and "removeAll d cbs \<noteq> []"
  shows "watched key (removeAll d cbs) (unsubscribe key d this)"
    and "transport (unsubscribe key d this) = transport this"
  using assms
  by (simp_all add: unsubscribe_eq watched_def set_delete_def map_get_map_set)

lemma fold_unsubscribe_watched:
  "watched key cbs this \<Longrightarrow>
     (if set cbs \<subseteq> set ds
      then unwatched key (fold (unsubscribe key) ds this)
           \<and> transport (fold (unsubscribe key) ds this)
                = transport this @ [ChannelUnsubscribe (channel_name key)]
      else watched key (filter (\<lambda>c. c \<notin> set ds) cbs) (fold (unsubscribe key) ds this)
           \<and> transport (fold (unsubscribe key) ds this) = transport this)"
proof (induction ds arbitrary: cbs this)
  case Nil
  then show ?case by (auto simp: watched_def)
next
  case (Cons d ds)
  show ?case
  proof (cases "removeAll d cbs = []")
    case True
    then have sub: "set cbs \<subseteq> set (d # ds)"
      by (metis insert_iff list.simps(15) removeAll_id removeAll_filter_not_eq set_removeAll
            Diff_iff empty_iff empty_set subsetI)
    note l = unsubscribe_watched_last [OF Cons.prems True]
    from l(1) have "fold (unsubscribe key) ds (unsubscribe key d this) = unsubscribe key d this"
      by (rule fold_unsubscribe_unwatched)
    with l sub show ?thesis by simp
  next
    case False
    note m = unsubscribe_watched_more [OF Cons.prems False]
    let ?t = "fold (unsubscribe key) ds (unsubscribe key d this)"
    have flt: "filter (\<lambda>c. c \<notin> set ds) (removeAll d cbs) = filter (\<lambda>c. c \<notin> set (d # ds)) cbs"
      by (induction cbs) auto
    note IH = Cons.IH [OF m(1)]
    show ?thesis
    proof (cases "set cbs \<subseteq> set (d # ds)")
      case True
      then have "set (removeAll d cbs) \<subseteq> set ds" by auto
      with IH have "unwatched key ?t"
        and "transport ?t = transport (unsubscribe key d this) @ [ChannelUnsubscribe (channel_name key)]"
        by (simp_all del: set_removeAll)
      with True m(2) show ?thesis by simp
    next
      case False
      then have "\<not> set (removeAll d cbs) \<subseteq> set ds" by auto
      with IH have "watched key (filter (\<lambda>c. c \<notin> set ds) (removeAll d cbs)) ?t"
        and "transport ?t = transport (unsubscribe key d this)"
        by (simp_all del: set_removeAll)
      then have "watched key (filter (\<lambda>c. c \<notin> set (d # ds)) cbs) ?t"
        and "transport ?t = transport this"
        by (simp_all only: flt m(2))
      with False show ?thesis by (simp only: fold_simps if_False)
    qed
  qed
qed

section \<open>Claims about the registry\<close>


lemma observers_unsubscribe:
  "observers k (unsubscribe key d this) =
     (if k = key then removeAll d (observers k this) else observers k this)"
  by (cases "map_get key (callbacks this)")
     (auto simp: unsubscribe_eq observers_def set_delete_def map_get_map_delete
        map_get_map_set map_get_map_set_other)

lemma observers_cleanup: "observers k (rm_cleanup this) = []"
  by (simp add: rm_cleanup_def observers_def map_get_def)



lemma unwatched_inv:
  assumes "registry_inv this" and "\<not> map_has key (subscriptions this)"
  shows "unwatched key this"
proof -
  from assms have "key \<notin> set (map_keys (callbacks this))"
    by (simp add: map_has_keys registry_inv_def)
  with assms(2) show ?thesis
    by (simp add: unwatched_def map_get_None_keys map_has_keys)
qed

lemma subscribe_all:
  assumes "unwatched (subscriptionKey table flt) this" and "distinct cbs" and "cbs \<noteq> []"
  shows "watched (subscriptionKey table flt) cbs (fold (\<lambda>cb. subscribe table cb flt) cbs this)"
    and "transport (fold (\<lambda>cb. subscribe table cb flt) cbs this)
           = transport this @ [ChannelSubscribe (channel_name (subscriptionKey table flt))]"
proof -
  from assms(3) obtain c rest where cbs: "cbs = c # rest" by (cases cbs) auto
  note first = subscribe_unwatched [OF assms(1), of c]
  from assms(2) cbs have "distinct ([c] @ rest)" by simp
  from fold_subscribe_watched [OF first(1) this] first(2) cbs
  show "watched (subscriptionKey table flt) cbs (fold (\<lambda>cb. subscribe table cb flt) cbs this)"
    and "transport (fold (\<lambda>cb. subscribe table cb flt) cbs this)
           = transport this @ [ChannelSubscribe (channel_name (subscriptionKey table flt))]"
    by simp_all
qed

text \<open>
  C2, as the code has it. In every state reached from the new registry by
  \<^verbatim>\<open>subscribe\<close>, detach and \<^verbatim>\<open>cleanup\<close> calls the invariant holds, a key has an upstream
  subscription exactly when its observer set is not empty, and the channels subscribed for
  a key exceed the channels unsubscribed by one when the key has a subscription and by none
  otherwise. When a key without a subscription is subscribed with N pairwise distinct
  callbacks, exactly one channel is subscribed; the subscription stays and nothing reaches
  the transport while one of the N callbacks has not been detached; and once all have been
  detached, in any order, the channel has been unsubscribed once and the key has neither a
  subscriptions entry nor a callbacks entry.
\<close>

theorem one_upstream_per_key:
  "registry_inv (registry_run cs RealtimeManager_new)
   \<and> registry_balanced (registry_run cs RealtimeManager_new)
   \<and> (\<forall>k. map_has k (subscriptions (registry_run cs RealtimeManager_new))
            \<longleftrightarrow> observers k (registry_run cs RealtimeManager_new) \<noteq> [])
   \<and> (registry_inv this \<and> \<not> map_has (subscriptionKey table flt) (subscriptions this)
        \<and> distinct cbs \<and> cbs \<noteq> [] \<longrightarrow>
        (let key = subscriptionKey table flt;
             this' = fold (\<lambda>cb. subscribe table cb flt) cbs this
         in transport this' = transport this @ [ChannelSubscribe (channel_name key)]
          \<and> observers key this' = cbs
          \<and> (\<forall>ds. \<not> set cbs \<subseteq> set ds \<longrightarrow>
                 map_has key (subscriptions (fold (unsubscribe key) ds this'))
               \<and> transport (fold (unsubscribe key) ds this') = transport this')
          \<and> (\<forall>ds. set cbs \<subseteq> set ds \<longrightarrow>
                 \<not> map_has key (subscriptions (fold (unsubscribe key) ds this'))
               \<and> \<not> map_has key (callbacks (fold (unsubscribe key) ds this'))
               \<and> transport (fold (unsubscribe key) ds this')
                   = transport this' @ [ChannelUnsubscribe (channel_name key)])))"
proof -
  let ?r = "registry_run cs RealtimeManager_new"
  have inv: "registry_inv ?r" by (rule registry_inv_run [OF registry_inv_new])
  have bal: "registry_balanced ?r"
    by (rule registry_balanced_run [OF registry_inv_new registry_balanced_new])
  have iff: "\<forall>k. map_has k (subscriptions ?r) \<longleftrightarrow> observers k ?r \<noteq> []"
    using observers_inv(2) [OF inv] by blast
  have scenario:
    "let key = subscriptionKey table flt;
         this' = fold (\<lambda>cb. subscribe table cb flt) cbs this
     in transport this' = transport this @ [ChannelSubscribe (channel_name key)]
      \<and> observers key this' = cbs
      \<and> (\<forall>ds. \<not> set cbs \<subseteq> set ds \<longrightarrow>
             map_has key (subscriptions (fold (unsubscribe key) ds this'))
           \<and> transport (fold (unsubscribe key) ds this') = transport this')
      \<and> (\<forall>ds. set cbs \<subseteq> set ds \<longrightarrow>
             \<not> map_has key (subscriptions (fold (unsubscribe key) ds this'))
           \<and> \<not> map_has key (callbacks (fold (unsubscribe key) ds this'))
           \<and> transport (fold (unsubscribe key) ds this')
               = transport this' @ [ChannelUnsubscribe (channel_name key)])"
    if h: "registry_inv this" "\<not> map_has (subscriptionKey table flt) (subscriptions this)"
          "distinct cbs" "cbs \<noteq> []"
  proof -
    let ?key = "subscriptionKey table flt"
    let ?t = "fold (\<lambda>cb. subscribe table cb flt) cbs this"
    note un = unwatched_inv [OF h(1) h(2)]
    note all = subscribe_all [OF un h(3) h(4)]
    have obs: "observers ?key ?t = cbs" using all(1) by (simp add: watched_def observers_def)
    have alive: "map_has ?key (subscriptions (fold (unsubscribe ?key) ds ?t))
               \<and> transport (fold (unsubscribe ?key) ds ?t) = transport ?t"
      if "\<not> set cbs \<subseteq> set ds" for ds
      using fold_unsubscribe_watched [OF all(1), of ds] that
      by (simp add: watched_def map_has_def map_get_def)
    have gone: "\<not> map_has ?key (subscriptions (fold (unsubscribe ?key) ds ?t))
               \<and> \<not> map_has ?key (callbacks (fold (unsubscribe ?key) ds ?t))
               \<and> transport (fold (unsubscribe ?key) ds ?t)
                   = transport ?t @ [ChannelUnsubscribe (channel_name ?key)]"
      if "set cbs \<subseteq> set ds" for ds
      using fold_unsubscribe_watched [OF all(1), of ds] that
      by (simp add: unwatched_def map_has_def map_get_def)
    from all(2) obs alive gone show ?thesis by (simp add: Let_def)
  qed
  from inv bal iff scenario show ?thesis by blast
qed

lemma ex_key_eq: "subscriptionKey ''habits'' ex_filter = ex_key"
  by (simp add: subscriptionKey_def ex_filter_def ex_key_def)

lemma ex_subscribed_eq:
  "ex_subscribed =
     \<lparr>subscriptions = [(ex_key, channel_name ex_key)], callbacks = [(ex_key, [1, 2, 3])],
      transport = [ChannelSubscribe (channel_name ex_key)]\<rparr>"
  by (simp add: ex_subscribed_def subscribe_eq ex_key_eq Let_def RealtimeManager_new_def
        map_has_def observers_def map_get_def set_add_def)

lemma ex_calls_run:
  "registry_run ex_calls RealtimeManager_new =
     \<lparr>subscriptions = [(ex_key, channel_name ex_key)], callbacks = [(ex_key, [2])],
      transport = [ChannelSubscribe (channel_name ex_key)]\<rparr>"
  by (simp add: ex_calls_def registry_run_def subscribe_eq unsubscribe_eq ex_key_eq Let_def
        RealtimeManager_new_def map_has_def observers_def map_get_def set_add_def set_delete_def)

text \<open>
  C2 with three callbacks on one key, detached in the order 3, 1, 2.
\<close>

theorem one_upstream_per_key_witness:
  "registry_inv RealtimeManager_new
   \<and> \<not> map_has (subscriptionKey ''habits'' ex_filter) (subscriptions RealtimeManager_new)
   \<and> distinct [1, 2, 3 :: nat]
   \<and> transport ex_subscribed = [ChannelSubscribe (channel_name ex_key)]
   \<and> observers ex_key ex_subscribed = [1, 2, 3]
   \<and> map_has ex_key (subscriptions (fold (unsubscribe ex_key) [3, 1] ex_subscribed))
   \<and> transport (fold (unsubscribe ex_key) [3, 1] ex_subscribed) = transport ex_subscribed
   \<and> \<not> map_has ex_key (subscriptions (fold (unsubscribe ex_key) [3, 1, 2] ex_subscribed))
   \<and> \<not> map_has ex_key (callbacks (fold (unsubscribe ex_key) [3, 1, 2] ex_subscribed))
   \<and> transport (fold (unsubscribe ex_key) [3, 1, 2] ex_subscribed)
       = [ChannelSubscribe (channel_name ex_key), ChannelUnsubscribe (channel_name ex_key)]
   \<and> opened ex_key (registry_run ex_calls RealtimeManager_new)
       = closed ex_key (registry_run ex_calls RealtimeManager_new) + 1"
proof -
  note t = one_upstream_per_key [of ex_calls RealtimeManager_new "''habits''" ex_filter "[1, 2, 3]"]
  have hyp: "registry_inv RealtimeManager_new
     \<and> \<not> map_has (subscriptionKey ''habits'' ex_filter) (subscriptions RealtimeManager_new)
     \<and> distinct [1, 2, 3 :: nat] \<and> [1, 2, 3 :: nat] \<noteq> []"
    by (intro conjI registry_inv_new) (simp_all add: RealtimeManager_new_def map_has_def)
  from t hyp have sc:
    "transport ex_subscribed = transport RealtimeManager_new @ [ChannelSubscribe (channel_name ex_key)]"
    "observers ex_key ex_subscribed = [1, 2, 3]"
    "\<forall>ds. \<not> set [1, 2, 3] \<subseteq> set ds \<longrightarrow>
        map_has ex_key (subscriptions (fold (unsubscribe ex_key) ds ex_subscribed))
      \<and> transport (fold (unsubscribe ex_key) ds ex_subscribed) = transport ex_subscribed"
    "\<forall>ds. set [1, 2, 3] \<subseteq> set ds \<longrightarrow>
        \<not> map_has ex_key (subscriptions (fold (unsubscribe ex_key) ds ex_subscribed))
      \<and> \<not> map_has ex_key (callbacks (fold (unsubscribe ex_key) ds ex_subscribed))
      \<and> transport (fold (unsubscribe ex_key) ds ex_subscribed)
          = transport ex_subscribed @ [ChannelUnsubscribe (channel_name ex_key)]"
    unfolding Let_def ex_key_eq ex_subscribed_def [symmetric] by blast+
  from t have "registry_balanced (registry_run ex_calls RealtimeManager_new)" by blast
  then have bal: "opened ex_key (registry_run ex_calls RealtimeManager_new)
       = closed ex_key (registry_run ex_calls RealtimeManager_new)
         + (if map_has ex_key (subscriptions (registry_run ex_calls RealtimeManager_new)) then 1 else 0)"
    unfolding registry_balanced_def by blast
  have has: "map_has ex_key (subscriptions (registry_run ex_calls RealtimeManager_new))"
    by (simp add: ex_calls_run map_has_def)
  from sc(3) [rule_format, of "[3, 1]"] have alive: "map_has ex_key (subscriptions (fold (unsubscribe ex_key) [3, 1] ex_subscribed))
      \<and> transport (fold (unsubscribe ex_key) [3, 1] ex_subscribed) = transport ex_subscribed"
    by simp
  from sc(4) [rule_format, of "[3, 1, 2]"] have gone: "\<not> map_has ex_key (subscriptions (fold (unsubscribe ex_key) [3, 1, 2] ex_subscribed))
      \<and> \<not> map_has ex_key (callbacks (fold (unsubscribe ex_key) [3, 1, 2] ex_subscribed))
      \<and> transport (fold (unsubscribe ex_key) [3, 1, 2] ex_subscribed)
          = transport ex_subscribed @ [ChannelUnsubscribe (channel_name ex_key)]"
    by simp
  from hyp sc(1,2) alive gone bal has show ?thesis
    by (simp add: RealtimeManager_new_def)
qed

text \<open>
  C2 as stated fails when the same callback is subscribed twice: the observer set holds it
  once, so after two \<^verbatim>\<open>subscribe\<close> calls the first detach call already unsubscribes the
  channel and deletes the key, and the second, last detach call does nothing.
\<close>

theorem duplicate_subscribe_torn_down_early:
  "transport (registry_run ex_twice RealtimeManager_new)
     = [ChannelSubscribe ''realtime:habits-all'', ChannelUnsubscribe ''realtime:habits-all'']
   \<and> \<not> map_has ''habits-all'' (subscriptions (registry_run ex_twice RealtimeManager_new))
   \<and> registry_run (ex_twice @ [Unsubscribe ''habits-all'' 7]) RealtimeManager_new
       = registry_run ex_twice RealtimeManager_new"
  by (simp add: ex_twice_def registry_run_def subscribe_def unsubscribe_def subscriptionKey_def
        channel_name_def Let_def RealtimeManager_new_def map_has_def map_get_def set_add_def
        set_delete_def map_delete_def)

section \<open>Facts about the fan-out\<close>

lemma ex_manager_observers: "observers ''habits-all'' ex_manager = [1, 2, 3]"
  by (simp add: ex_manager_def subscribe_def subscriptionKey_def RealtimeManager_new_def
        map_has_def map_get_def set_add_def observers_def Let_def channel_name_def)

lemma try_catch_call:
  assumes "beh cb payload (app w) = (thrown, s, ds)"
  shows "try_catch (call undo beh cb payload) (console_error msg) (r, w) =
     (None, fold undo ds r,
      w\<lparr>events := events w @ Called cb payload # map Reentered ds,
        console := console w @ map (\<lambda>e. (msg, e)) (case thrown of None \<Rightarrow> [] | Some e \<Rightarrow> [e]),
        app := s\<rparr>)"
  using assms by (cases thrown) (simp_all add: try_catch_def call_def console_error_def)

lemma forEach_walk:
  "forEach (\<lambda>st. members (fst st))
     (\<lambda>cb. try_catch (call undo beh cb payload) (console_error msg)) cbs (r, w) =
   (case walk members undo beh payload cbs r (app w) of
      (t, es, r', s') \<Rightarrow>
        (None, r', w\<lparr>events := events w @ t,
                      console := console w @ map (\<lambda>e. (msg, e)) es,
                      app := s'\<rparr>))"
proof (induction cbs arbitrary: r w)
  case Nil
  then show ?case by simp
next
  case (Cons cb cbs)
  let ?f = "\<lambda>cb. try_catch (call undo beh cb payload) (console_error msg)"
  let ?m = "\<lambda>st. members (fst st)"
  show ?case
  proof (cases "cb \<in> set (members r)")
    case False
    then have "forEach ?m ?f (cb # cbs) (r, w) = forEach ?m ?f cbs (r, w)" by simp
    with False Cons.IH [of r w] show ?thesis by simp
  next
    case True
    obtain thrown s ds where b: "beh cb payload (app w) = (thrown, s, ds)"
      by (cases "beh cb payload (app w)") auto
    let ?w1 = "w\<lparr>events := events w @ Called cb payload # map Reentered ds,
        console := console w @ map (\<lambda>e. (msg, e)) (case thrown of None \<Rightarrow> [] | Some e \<Rightarrow> [e]),
        app := s\<rparr>"
    obtain t es r' s' where wk: "walk members undo beh payload cbs (fold undo ds r) s = (t, es, r', s')"
      by (cases "walk members undo beh payload cbs (fold undo ds r) s") auto
    have "forEach ?m ?f (cb # cbs) (r, w) = forEach ?m ?f cbs (fold undo ds r, ?w1)"
      using True b try_catch_call [of beh cb payload w thrown s ds undo msg r] by simp
    also have "\<dots> = (None, r', ?w1\<lparr>events := events ?w1 @ t,
                      console := console ?w1 @ map (\<lambda>e. (msg, e)) es,
                      app := s'\<rparr>)"
      using Cons.IH [of "fold undo ds r" ?w1] wk by simp
    finally show ?thesis using True b wk by simp
  qed
qed

lemma shrinking_fold:
  "shrinking members undo \<Longrightarrow> set (members (fold undo ds r)) \<subseteq> set (members r)"
proof (induction ds arbitrary: r)
  case Nil
  then show ?case by simp
next
  case (Cons d ds)
  from Cons.IH [OF Cons.prems, of "undo d r"] Cons.prems show ?case
    by (auto simp: shrinking_def)
qed

lemma walk_shrinks:
  "shrinking members undo \<Longrightarrow> walk members undo beh payload cbs r s = (t, es, r', s') \<Longrightarrow>
     set (members r') \<subseteq> set (members r)"
proof (induction cbs arbitrary: r s t es)
  case Nil
  then show ?case by simp
next
  case (Cons cb cbs)
  show ?case
  proof (cases "cb \<in> set (members r)")
    case False
    with Cons.prems(2) have "walk members undo beh payload cbs r s = (t, es, r', s')" by simp
    from Cons.IH [OF Cons.prems(1) this] show ?thesis .
  next
    case True
    obtain thrown s1 ds where b: "beh cb payload s = (thrown, s1, ds)"
      by (cases "beh cb payload s") auto
    obtain t1 es1 where wk: "walk members undo beh payload cbs (fold undo ds r) s1 = (t1, es1, r', s')"
      using Cons.prems(2) True b
      by (cases "walk members undo beh payload cbs (fold undo ds r) s1") auto
    from Cons.IH [OF Cons.prems(1) wk] shrinking_fold [OF Cons.prems(1), of ds r]
    show ?thesis by blast
  qed
qed

lemma callers_append: "callers (t @ u) = callers t @ callers u"
  by (induction t rule: callers.induct) simp_all



text \<open>A member that is still there at the end has been called.\<close>

lemma walk_calls_remaining:
  "shrinking members undo \<Longrightarrow> walk members undo beh payload cbs r s = (t, es, r', s') \<Longrightarrow>
     cb \<in> set cbs \<Longrightarrow> cb \<in> set (members r') \<Longrightarrow> cb \<in> set (callers t)"
proof (induction cbs arbitrary: r s t es)
  case Nil
  then show ?case by simp
next
  case (Cons c cbs)
  show ?case
  proof (cases "c \<in> set (members r)")
    case False
    with Cons.prems(2) have wk: "walk members undo beh payload cbs r s = (t, es, r', s')" by simp
    from walk_shrinks [OF Cons.prems(1) wk] Cons.prems(4) False have "cb \<noteq> c" by auto
    with Cons.prems(3) have "cb \<in> set cbs" by simp
    from Cons.IH [OF Cons.prems(1) wk this Cons.prems(4)] show ?thesis .
  next
    case True
    obtain thrown s1 ds where b: "beh c payload s = (thrown, s1, ds)"
      by (cases "beh c payload s") auto
    obtain t1 es1 where wk: "walk members undo beh payload cbs (fold undo ds r) s1 = (t1, es1, r', s')"
      using Cons.prems(2) True b
      by (cases "walk members undo beh payload cbs (fold undo ds r) s1") auto
    from Cons.prems(2) True b wk have t: "t = Called c payload # map Reentered ds @ t1" by simp
    show ?thesis
    proof (cases "cb = c")
      case True
      then show ?thesis by (simp add: t)
    next
      case False
      with Cons.prems(3) have "cb \<in> set cbs" by simp
      from Cons.IH [OF Cons.prems(1) wk this Cons.prems(4)]
      show ?thesis by (simp add: t callers_append)
    qed
  qed
qed

text \<open>Without calls back into the object every member is called, in order.\<close>

lemma walk_never_reenters:
  "never_reenters beh \<Longrightarrow> set cbs \<subseteq> set (members r) \<Longrightarrow>
     fst (walk members undo beh payload cbs r s) = map (\<lambda>cb. Called cb payload) cbs"
proof (induction cbs arbitrary: s)
  case Nil
  then show ?case by simp
next
  case (Cons cb cbs)
  obtain thrown s1 ds where b: "beh cb payload s = (thrown, s1, ds)"
    by (cases "beh cb payload s") auto
  from Cons.prems(1) b have ds: "ds = []"
    unfolding never_reenters_def by (metis snd_conv)
  from Cons.prems(2) have "set cbs \<subseteq> set (members r)" by simp
  from Cons.IH [OF Cons.prems(1) this, of s1] Cons.prems(2) b ds
  show ?case by (cases "walk members undo beh payload cbs r s1") auto
qed


lemma walk_keeps:
  assumes keep: "\<And>d r. L r \<Longrightarrow> L (undo d r)"
  shows "L r \<Longrightarrow> walk members undo beh payload cbs r s = (t, es, r', s') \<Longrightarrow> L r'"
proof (induction cbs arbitrary: r s t es)
  case Nil
  then show ?case by simp
next
  case (Cons cb cbs)
  have folded: "L (fold undo ds r)" if "L r" for ds r
    using that by (induction ds arbitrary: r) (simp_all add: keep)
  show ?case
  proof (cases "cb \<in> set (members r)")
    case False
    with Cons.prems(2) have "walk members undo beh payload cbs r s = (t, es, r', s')" by simp
    from Cons.IH [OF Cons.prems(1) this] show ?thesis .
  next
    case True
    obtain thrown s1 ds where b: "beh cb payload s = (thrown, s1, ds)"
      by (cases "beh cb payload s") auto
    obtain t1 es1 where wk: "walk members undo beh payload cbs (fold undo ds r) s1 = (t1, es1, r', s')"
      using Cons.prems(2) True b
      by (cases "walk members undo beh payload cbs (fold undo ds r) s1") auto
    from Cons.IH [OF folded [OF Cons.prems(1)] wk] show ?thesis .
  qed
qed






lemma reenter_shrinking: "shrinking snd (reenter key)"
proof -
  have "set (snd (reenter key d r)) \<subseteq> set (snd r)" for d r
    by (cases d; cases r) (auto simp: set_delete_def)
  then show ?thesis by (simp add: shrinking_def)
qed



lemma covered_keeps: "covered key r \<Longrightarrow> covered key (reenter key d r)"
proof -
  assume c: "covered key r"
  obtain this walked where r: "r = (this, walked)" by (cases r)
  show ?thesis
  proof (cases d)
    case CleanupAll
    then show ?thesis by (simp add: r covered_def observers_cleanup)
  next
    case (Detach k x)
    show ?thesis
    proof (cases "map_has key (callbacks this)")
      case True
      with c show ?thesis
        by (auto simp: r Detach covered_def observers_unsubscribe set_delete_def)
    next
      case False
      then have "observers key this = []" by (simp add: observers_def map_has_def map_get_def)
      then show ?thesis by (auto simp: r Detach covered_def observers_unsubscribe)
    qed
  qed
qed

text \<open>Both fan-outs are walks.\<close>

lemma on_payload_walk:
  "on_payload beh key payload (this, w) =
     (case walk snd (reenter key) beh payload (observers key this) (this, observers key this)
             (app w) of
        (t, es, r', s') \<Rightarrow>
          (None, fst r', w\<lparr>events := events w @ t,
                           console := console w @ map (\<lambda>e. (''Realtime callback error:'', e)) es,
                           app := s'\<rparr>))"
proof (cases "map_get key (callbacks this)")
  case None
  then show ?thesis by (simp add: on_payload_def observers_def)
next
  case (Some cbs)
  then have obs: "observers key this = cbs" by (simp add: observers_def)
  obtain t es r' s' where
    wk: "walk snd (reenter key) beh payload cbs (this, cbs) (app w) = (t, es, r', s')"
    by (cases "walk snd (reenter key) beh payload cbs (this, cbs) (app w)") auto
  have "forEach (\<lambda>st. snd (fst st))
          (\<lambda>cb. try_catch (call (reenter key) beh cb payload)
                   (console_error ''Realtime callback error:'')) cbs ((this, cbs), w)
        = (None, r', w\<lparr>events := events w @ t,
                        console := console w @ map (\<lambda>e. (''Realtime callback error:'', e)) es,
                        app := s'\<rparr>)"
    using forEach_walk [of snd "reenter key" beh payload "''Realtime callback error:''" cbs
            "(this, cbs)" w] wk by simp
  with Some wk show ?thesis by (simp add: on_payload_def obs)
qed

lemma setOnlineStatus_walk:
  "setOnlineStatus beh status (this, w) =
     (case walk cm_callbacks cm_unsubscribe beh status (cm_callbacks this)
             (this\<lparr>isOnline := status\<rparr>) (app w) of
        (t, es, this', s') \<Rightarrow>
          (None, this', w\<lparr>events := events w @ t,
                          console := console w @ map (\<lambda>e. (''Connection status callback error:'', e)) es,
                          app := s'\<rparr>))"
proof -
  have "setOnlineStatus beh status (this, w) =
          forEach (\<lambda>st. cm_callbacks (fst st))
            (\<lambda>cb. try_catch (call cm_unsubscribe beh cb status)
                     (console_error ''Connection status callback error:''))
            (cm_callbacks this) (this\<lparr>isOnline := status\<rparr>, w)"
    by (simp add: setOnlineStatus_def)
  then show ?thesis by (simp only: forEach_walk)
qed

lemma cm_shrinking: "shrinking cm_callbacks cm_unsubscribe"
  by (auto simp: shrinking_def cm_unsubscribe_def set_delete_def)

lemma new_events_walk:
  "walk members undo beh payload cbs r (app w) = (t, es, r', s') \<Longrightarrow>
     new_events w (None, x, w\<lparr>events := events w @ t, console := c, app := s'\<rparr>) = t"
  by (simp add: new_events_def)

lemma new_events_on_payload:
  "new_events w (on_payload beh key payload (this, w)) =
     fst (walk snd (reenter key) beh payload (observers key this) (this, observers key this)
            (app w))"
  by (cases "walk snd (reenter key) beh payload (observers key this) (this, observers key this)
               (app w)")
     (simp add: on_payload_walk new_events_def)


lemma covered_observers: "covered key (this, observers key this)"
  by (simp add: covered_def)

lemma walk_isOnline:
  "walk cm_callbacks cm_unsubscribe beh payload cbs r s = (t, es, r', s') \<Longrightarrow>
     isOnline r' = isOnline r"
proof -
  assume wk: "walk cm_callbacks cm_unsubscribe beh payload cbs r s = (t, es, r', s')"
  have "isOnline r' = isOnline r"
    by (rule walk_keeps [of "\<lambda>x. isOnline x = isOnline r" cm_unsubscribe, OF _ _ wk])
       (simp_all add: cm_unsubscribe_def)
  then show ?thesis .
qed


lemma ex_quiet_walk:
  "walk snd (reenter ''habits-all'') ex_quiet_beh ''INSERT'' [1, 2, 3] (ex_manager, [1, 2, 3]) 0 =
     ([Called 1 ''INSERT'', Called 2 ''INSERT'', Called 3 ''INSERT''], [''boom''],
      (ex_manager, [1, 2, 3]), 21)"
  by (simp add: ex_quiet_beh_def)

lemma ex_status_walk:
  "walk cm_callbacks cm_unsubscribe ex_status_beh False [1, 2] (ex_monitor\<lparr>isOnline := False\<rparr>) 0 =
     ([Called 1 False, Called 2 False], [''offline handler failed''],
      ex_monitor\<lparr>isOnline := False\<rparr>, 1)"
  by (simp add: ex_monitor_def cm_subscribe_def set_add_def ex_status_beh_def)

lemma ex_monitor_callbacks: "cm_callbacks ex_monitor = [1, 2]"
  by (simp add: ex_monitor_def cm_subscribe_def set_add_def)




section \<open>Claims about the fan-out\<close>

text \<open>
  C4. The handler of a subscription key and \<^verbatim>\<open>setOnlineStatus\<close> return without an
  error, whatever the callbacks throw. Every callback that was registered when the event
  arrived and is still registered when the fan-out ends has been called with the event,
  also after one that threw; when no callback calls back into the object, every registered
  callback is called once, in the order of the set. Every error thrown by a callback that
  was called is written to the console with the handler's message, in order.
  \<^verbatim>\<open>setOnlineStatus\<close> also stores the new status.
\<close>

theorem fanout_isolates_callbacks:
  "fst (on_payload beh key payload (this, w)) = None
   \<and> (\<forall>cb \<in> set (observers key this).
         cb \<in> set (observers key (fst (snd (on_payload beh key payload (this, w))))) \<longrightarrow>
         cb \<in> set (callers (new_events w (on_payload beh key payload (this, w)))))
   \<and> (never_reenters beh \<longrightarrow>
         new_events w (on_payload beh key payload (this, w))
           = map (\<lambda>cb. Called cb payload) (observers key this))
   \<and> console (snd (snd (on_payload beh key payload (this, w))))
       = console w @ map (\<lambda>e. (''Realtime callback error:'', e))
           (fst (snd (walk snd (reenter key) beh payload (observers key this)
                        (this, observers key this) (app w))))
   \<and> fst (setOnlineStatus sbeh status (mon, sw)) = None
   \<and> isOnline (fst (snd (setOnlineStatus sbeh status (mon, sw)))) = status
   \<and> (\<forall>cb \<in> set (cm_callbacks mon).
         cb \<in> set (cm_callbacks (fst (snd (setOnlineStatus sbeh status (mon, sw))))) \<longrightarrow>
         cb \<in> set (callers (new_events sw (setOnlineStatus sbeh status (mon, sw)))))
   \<and> (never_reenters sbeh \<longrightarrow>
         new_events sw (setOnlineStatus sbeh status (mon, sw))
           = map (\<lambda>cb. Called cb status) (cm_callbacks mon))
   \<and> console (snd (snd (setOnlineStatus sbeh status (mon, sw))))
       = console sw @ map (\<lambda>e. (''Connection status callback error:'', e))
           (fst (snd (walk cm_callbacks cm_unsubscribe sbeh status (cm_callbacks mon)
                        (mon\<lparr>isOnline := status\<rparr>) (app sw))))"
proof -
  let ?r0 = "(this, observers key this)"
  obtain t es r' s' where
    wk: "walk snd (reenter key) beh payload (observers key this) ?r0 (app w) = (t, es, r', s')"
    by (cases "walk snd (reenter key) beh payload (observers key this) ?r0 (app w)") auto
  note res = on_payload_walk [of beh key payload this w, unfolded wk, simplified]
  have ev: "new_events w (on_payload beh key payload (this, w)) = t"
    by (simp add: new_events_on_payload wk)
  have a: "fst (on_payload beh key payload (this, w)) = None" by (simp add: res)
  have b: "cb \<in> set (callers (new_events w (on_payload beh key payload (this, w))))"
    if "cb \<in> set (observers key this)"
       "cb \<in> set (observers key (fst (snd (on_payload beh key payload (this, w)))))" for cb
  proof -
    from that(2) have "cb \<in> set (observers key (fst r'))" by (simp add: res)
    moreover have "covered key r'"
      by (rule walk_keeps [of "covered key" "reenter key", OF covered_keeps covered_observers wk])
    ultimately have "cb \<in> set (snd r')" by (auto simp: covered_def)
    from walk_calls_remaining [OF reenter_shrinking wk that(1) this]
    show ?thesis by (simp only: ev)
  qed
  have c: "new_events w (on_payload beh key payload (this, w))
             = map (\<lambda>cb. Called cb payload) (observers key this)" if "never_reenters beh"
    using walk_never_reenters [OF that, of "observers key this" snd ?r0 "reenter key" payload "app w"]
    by (simp add: ev wk)
  have d: "console (snd (snd (on_payload beh key payload (this, w))))
       = console w @ map (\<lambda>e. (''Realtime callback error:'', e))
           (fst (snd (walk snd (reenter key) beh payload (observers key this) ?r0 (app w))))"
    by (simp add: res wk)
  let ?mon = "mon\<lparr>isOnline := status\<rparr>"
  obtain st ses mon' ss' where
    swk: "walk cm_callbacks cm_unsubscribe sbeh status (cm_callbacks mon) ?mon (app sw)
            = (st, ses, mon', ss')"
    by (cases "walk cm_callbacks cm_unsubscribe sbeh status (cm_callbacks mon) ?mon (app sw)") auto
  note sres = setOnlineStatus_walk [of sbeh status mon sw, unfolded swk, simplified]
  have sev: "new_events sw (setOnlineStatus sbeh status (mon, sw)) = st"
    unfolding sres by (rule new_events_walk [OF swk])
  have e: "fst (setOnlineStatus sbeh status (mon, sw)) = None" by (simp add: sres)
  have f: "isOnline (fst (snd (setOnlineStatus sbeh status (mon, sw)))) = status"
    using walk_isOnline [OF swk] by (simp add: sres)
  have g: "cb \<in> set (callers (new_events sw (setOnlineStatus sbeh status (mon, sw))))"
    if "cb \<in> set (cm_callbacks mon)"
       "cb \<in> set (cm_callbacks (fst (snd (setOnlineStatus sbeh status (mon, sw)))))" for cb
  proof -
    from that(2) have "cb \<in> set (cm_callbacks mon')" by (simp add: sres)
    from walk_calls_remaining [OF cm_shrinking swk that(1) this]
    show ?thesis by (simp only: sev)
  qed
  have h: "new_events sw (setOnlineStatus sbeh status (mon, sw))
             = map (\<lambda>cb. Called cb status) (cm_callbacks mon)" if "never_reenters sbeh"
    using walk_never_reenters [OF that, of "cm_callbacks mon" cm_callbacks ?mon cm_unsubscribe
            status "app sw"]
    by (simp add: sev swk)
  have i: "console (snd (snd (setOnlineStatus sbeh status (mon, sw))))
       = console sw @ map (\<lambda>e. (''Connection status callback error:'', e))
           (fst (snd (walk cm_callbacks cm_unsubscribe sbeh status (cm_callbacks mon)
                        ?mon (app sw))))"
    by (simp add: sres swk)
  from a b c d e f g h i show ?thesis by blast
qed

text \<open>
  C4 with a throwing callback between two others, and with a throwing first callback of
  the connection monitor.
\<close>

theorem fanout_isolates_callbacks_witness:
  "never_reenters ex_quiet_beh \<and> never_reenters ex_status_beh
   \<and> fst (on_payload ex_quiet_beh ''habits-all'' ''INSERT'' (ex_manager, ex_world)) = None
   \<and> new_events ex_world (on_payload ex_quiet_beh ''habits-all'' ''INSERT'' (ex_manager, ex_world))
       = [Called 1 ''INSERT'', Called 2 ''INSERT'', Called 3 ''INSERT'']
   \<and> console (snd (snd (on_payload ex_quiet_beh ''habits-all'' ''INSERT'' (ex_manager, ex_world))))
       = [(''Realtime callback error:'', ''boom'')]
   \<and> fst (setOnlineStatus ex_status_beh False (ex_monitor, ex_status_world)) = None
   \<and> isOnline (fst (snd (setOnlineStatus ex_status_beh False (ex_monitor, ex_status_world)))) = False
   \<and> new_events ex_status_world (setOnlineStatus ex_status_beh False (ex_monitor, ex_status_world))
       = [Called 1 False, Called 2 False]
   \<and> console (snd (snd (setOnlineStatus ex_status_beh False (ex_monitor, ex_status_world))))
       = [(''Connection status callback error:'', ''offline handler failed'')]"
proof -
  have q: "never_reenters ex_quiet_beh" by (simp add: never_reenters_def ex_quiet_beh_def)
  have s: "never_reenters ex_status_beh" by (simp add: never_reenters_def ex_status_beh_def)
  from fanout_isolates_callbacks [of ex_quiet_beh "''habits-all''" "''INSERT''" ex_manager ex_world
         ex_status_beh False ex_monitor ex_status_world] q s ex_quiet_walk ex_status_walk
  show ?thesis
    by (simp add: ex_manager_observers ex_monitor_callbacks ex_world_def ex_status_world_def
          del: walk.simps)
qed




end
